theory Spec2Isabelle
  imports Main
begin

section \<open>Failures\<close>

text \<open>
  The sources guard their preconditions with \<^verbatim>\<open>DCHECK\<close>, \<^verbatim>\<open>CHECK\<close> and
  \<^verbatim>\<open>UNREACHABLE()\<close>. A violated guard stops the process, so every guarded function is
  modelled with the result type \<open>failure + 'a\<close>: \<open>Inl\<close> names the guard that fired,
  \<open>Inr\<close> carries what the function returns. An array access outside the allocated
  array has no defined behaviour in the source; the model reports it as \<open>OutOfBounds\<close>.
\<close>

datatype failure = DCHECK_failed | CHECK_failed | UNREACHABLE_hit | OutOfBounds

section \<open>Pages: free-list categories (spaces.cc)\<close>

text \<open>
  \<^verbatim>\<open>owner()->free_list()\<close> is declared in a header that is not among the sources; the
  three numbers the page code reads from it are taken as parameters.
\<close>

record FreeList =
  kFirstCategory :: int
  last_category :: int
  number_of_categories :: int

text \<open>
  A page, as far as \<^verbatim>\<open>spaces.cc\<close> touches it. \<open>categories\<close> (the source's \<^verbatim>\<open>categories_\<close>) is the pointer to the
  array of category pointers (\<open>None\<close> is \<^verbatim>\<open>nullptr\<close>, an entry \<open>None\<close> is a null
  entry). A \<^verbatim>\<open>FreeListCategory*\<close> is a natural number naming an object, and
  \<open>category_objects\<close> lists the category objects that are allocated and not yet deleted.
  A slot set is the list of the slot addresses recorded in it, without repetition.
\<close>

record Page =
  categories :: "nat option list option"
  free_list :: FreeList
  category_objects :: "nat list"
  slot_set_OLD_TO_NEW :: "nat list option"
  sweeping_slot_set :: "nat list option"

text \<open>\<^verbatim>\<open>new FreeListCategory()\<close>: an address no live category object has.\<close>

definition new_FreeListCategory :: "nat list \<Rightarrow> nat" where
  "new_FreeListCategory live = Suc (fold max live 0)"

text \<open>
  The loop of \<^verbatim>\<open>AllocateFreeListCategories\<close> over the indices it still has to visit:
  \<^verbatim>\<open>DCHECK_NULL(categories_[i]); categories_[i] = new FreeListCategory();\<close>
\<close>

fun allocate_categories_loop ::
  "int list \<Rightarrow> nat option list \<Rightarrow> nat list \<Rightarrow> failure + (nat option list \<times> nat list)" where
  "allocate_categories_loop [] arr live = Inr (arr, live)"
| "allocate_categories_loop (i # is) arr live =
     (if i < 0 \<or> int (length arr) \<le> i then Inl OutOfBounds
      else if arr ! nat i \<noteq> None then Inl DCHECK_failed
      else let c = new_FreeListCategory live
           in allocate_categories_loop is (arr[nat i := Some c]) (c # live))"

definition AllocateFreeListCategories :: "Page \<Rightarrow> failure + Page" where
  "AllocateFreeListCategories p =
     (if categories p \<noteq> None then Inl DCHECK_failed
      else if number_of_categories (free_list p) < 0 then Inl OutOfBounds
      else
        case allocate_categories_loop
               [kFirstCategory (free_list p) .. last_category (free_list p)]
               (replicate (nat (number_of_categories (free_list p))) None)
               (category_objects p) of
          Inl e \<Rightarrow> Inl e
        | Inr (arr, live) \<Rightarrow> Inr (p\<lparr>categories := Some arr, category_objects := live\<rparr>))"

text \<open>
  The loop of \<^verbatim>\<open>ReleaseFreeListCategories\<close>:
  \<^verbatim>\<open>if (categories_[i] != nullptr) { delete categories_[i]; categories_[i] = nullptr; }\<close>
\<close>

fun release_categories_loop ::
  "int list \<Rightarrow> nat option list \<Rightarrow> nat list \<Rightarrow> failure + (nat option list \<times> nat list)" where
  "release_categories_loop [] arr live = Inr (arr, live)"
| "release_categories_loop (i # is) arr live =
     (if i < 0 \<or> int (length arr) \<le> i then Inl OutOfBounds
      else case arr ! nat i of
             None \<Rightarrow> release_categories_loop is arr live
           | Some c \<Rightarrow> release_categories_loop is (arr[nat i := None]) (removeAll c live))"

definition ReleaseFreeListCategories :: "Page \<Rightarrow> failure + Page" where
  "ReleaseFreeListCategories p =
     (case categories p of
        None \<Rightarrow> Inr p
      | Some arr \<Rightarrow>
          (case release_categories_loop
                  [kFirstCategory (free_list p) .. last_category (free_list p)]
                  arr (category_objects p) of
             Inl e \<Rightarrow> Inl e
           | Inr (arr', live) \<Rightarrow> Inr (p\<lparr>categories := None, category_objects := live\<rparr>)))"

text \<open>The invariant of the category array: absent, or populated on the whole range.\<close>

definition categories_populated :: "Page \<Rightarrow> bool" where
  "categories_populated p =
     (case categories p of
        None \<Rightarrow> True
      | Some arr \<Rightarrow>
          list_all (\<lambda>i. 0 \<le> i \<and> i < int (length arr) \<and> arr ! nat i \<noteq> None)
            [kFirstCategory (free_list p) .. last_category (free_list p)])"

text \<open>The free-list numbers an owner can have: the category range lies inside the array.\<close>

definition free_list_ok :: "FreeList \<Rightarrow> bool" where
  "free_list_ok fl = (0 \<le> kFirstCategory fl \<and> 0 \<le> number_of_categories fl \<and>
                      last_category fl < number_of_categories fl)"

text \<open>
  The pages that the two operations produce, starting from a page whose category array
  has not been allocated.
\<close>

inductive page_reachable :: "Page \<Rightarrow> bool" where
  fresh: "categories p = None \<Longrightarrow> page_reachable p"
| allocate: "page_reachable p \<Longrightarrow> AllocateFreeListCategories p = Inr p' \<Longrightarrow> page_reachable p'"
| release: "page_reachable p \<Longrightarrow> ReleaseFreeListCategories p = Inr p' \<Longrightarrow> page_reachable p'"

text \<open>A page whose owner has the three categories 0, 1 and 2.\<close>

definition page3 :: Page where
  "page3 = \<lparr>categories = None,
            free_list = \<lparr>kFirstCategory = 0, last_category = 2, number_of_categories = 3\<rparr>,
            category_objects = [], slot_set_OLD_TO_NEW = None, sweeping_slot_set = None\<rparr>"

section \<open>Pages: the old-to-new remembered set around sweeping (spaces.cc)\<close>

text \<open>
  Modelled from the spec: \<^verbatim>\<open>RememberedSet<OLD_TO_NEW>::Insert\<close>,
  \<^verbatim>\<open>RememberedSetSweeping::Insert\<close>, \<^verbatim>\<open>RememberedSet<OLD_TO_NEW>::Iterate\<close> and
  \<^verbatim>\<open>ReleaseSlotSet\<close> live in headers that are not among the sources. The spec has new
  entries land in the live set, which Move leaves empty, so an insertion into an absent
  set allocates it first; recording a slot that is already recorded changes nothing.
\<close>

definition SlotSet_Insert :: "nat \<Rightarrow> nat list option \<Rightarrow> nat list option" where
  "SlotSet_Insert a s = Some (List.insert a (case s of None \<Rightarrow> [] | Some xs \<Rightarrow> xs))"

definition RememberedSet_Insert :: "Page \<Rightarrow> nat \<Rightarrow> Page" where
  "RememberedSet_Insert p a = p\<lparr>slot_set_OLD_TO_NEW := SlotSet_Insert a (slot_set_OLD_TO_NEW p)\<rparr>"

definition RememberedSetSweeping_Insert :: "Page \<Rightarrow> nat \<Rightarrow> Page" where
  "RememberedSetSweeping_Insert p a = p\<lparr>sweeping_slot_set := SlotSet_Insert a (sweeping_slot_set p)\<rparr>"

definition ReleaseSlotSet :: "Page \<Rightarrow> Page" where
  "ReleaseSlotSet p = p\<lparr>slot_set_OLD_TO_NEW := None\<rparr>"

definition MoveOldToNewRememberedSetForSweeping :: "Page \<Rightarrow> failure + Page" where
  "MoveOldToNewRememberedSetForSweeping p =
     (if sweeping_slot_set p \<noteq> None then Inl CHECK_failed
      else Inr (p\<lparr>sweeping_slot_set := slot_set_OLD_TO_NEW p, slot_set_OLD_TO_NEW := None\<rparr>))"

text \<open>
  \<^verbatim>\<open>Iterate\<close> calls the callback on every slot of the live set; the callback inserts the
  slot into the sweeping set and keeps it.
\<close>

definition MergeOldToNewRememberedSets :: "Page \<Rightarrow> failure + Page" where
  "MergeOldToNewRememberedSets p =
     (if sweeping_slot_set p = None then Inr p
      else
        let p1 = (case slot_set_OLD_TO_NEW p of
                    None \<Rightarrow> p
                  | Some slots \<Rightarrow>
                      ReleaseSlotSet (fold (\<lambda>address q. RememberedSetSweeping_Insert q address) slots p))
        in if slot_set_OLD_TO_NEW p1 \<noteq> None then Inl CHECK_failed
           else Inr (p1\<lparr>slot_set_OLD_TO_NEW := sweeping_slot_set p1, sweeping_slot_set := None\<rparr>))"

text \<open>The slots a set holds, and the sets that record no slot twice.\<close>

definition slots_of :: "nat list option \<Rightarrow> nat set" where
  "slots_of s = (case s of None \<Rightarrow> {} | Some xs \<Rightarrow> set xs)"

definition slot_set_distinct :: "nat list option \<Rightarrow> bool" where
  "slot_set_distinct s = (case s of None \<Rightarrow> True | Some xs \<Rightarrow> distinct xs)"

text \<open>
  A simulated sweep: insertions, the move, further insertions by the mutator, the merge.
\<close>

definition sweep_with_insertions :: "Page \<Rightarrow> nat list \<Rightarrow> nat list \<Rightarrow> failure + Page" where
  "sweep_with_insertions p before during =
     (case MoveOldToNewRememberedSetForSweeping (fold (\<lambda>a q. RememberedSet_Insert q a) before p) of
        Inl e \<Rightarrow> Inl e
      | Inr p2 \<Rightarrow> MergeOldToNewRememberedSets (fold (\<lambda>a q. RememberedSet_Insert q a) during p2))"

section \<open>Spaces with a linear allocation area (spaces.cc)\<close>

text \<open>
  \<^verbatim>\<open>Address\<close> and \<^verbatim>\<open>size_t\<close> are unsigned integers of the pointer width, \<^verbatim>\<open>int\<close> has 32
  bits and \<^verbatim>\<open>uint64_t\<close> has 64. The width of a pointer and the object alignment are
  constants of \<^verbatim>\<open>globals.h\<close>, which is not among the sources, so both are parameters.
  Unsigned values are natural numbers below the modulus of their type; every operation
  that can leave the type is written with its wrap-around.
\<close>

record Arch =
  kSystemPointerBits :: nat
  kObjectAlignmentBits :: nat

definition address_modulus :: "Arch \<Rightarrow> nat" where
  "address_modulus a = 2 ^ kSystemPointerBits a"

text \<open>\<^verbatim>\<open>static_cast<int>\<close> of an unsigned value: the low 32 bits, read as two's complement.\<close>

definition static_cast_int :: "nat \<Rightarrow> int" where
  "static_cast_int n =
     (let m = n mod 2 ^ 32 in if m < 2 ^ 31 then int m else int m - 2 ^ 32)"

text \<open>The conversion of an \<^verbatim>\<open>int\<close> to \<^verbatim>\<open>size_t\<close>: the value modulo the type's modulus.\<close>

definition size_t_of_int :: "Arch \<Rightarrow> int \<Rightarrow> nat" where
  "size_t_of_int a i = nat (i mod int (address_modulus a))"

text \<open>
  Modelled from the spec: \<^verbatim>\<open>RoundSizeDownToObjectAlignment(int)\<close> is declared in a header
  that is not among the sources. The spec calls it rounding down to the object alignment:
  the largest multiple of the alignment that is not above the argument.
\<close>

definition RoundSizeDownToObjectAlignment :: "Arch \<Rightarrow> int \<Rightarrow> int" where
  "RoundSizeDownToObjectAlignment a size' = size' - size' mod 2 ^ kObjectAlignmentBits a"

record AllocationCounter =
  IsActive :: bool
  NextBytes :: nat

record LinearAllocationArea =
  info_start :: nat
  info_top :: nat
  info_limit :: nat

text \<open>
  The space: \<open>inline_allocation_disabled\<close> is the heap's flag,
  \<open>SupportsAllocationObserver\<close> the answer of the virtual method, and \<open>fillers\<close> lists
  the filler objects the heap was asked to create, as address and size.
\<close>

record SpaceWithLinearArea =
  inline_allocation_disabled :: bool
  SupportsAllocationObserver :: bool
  allocation_counter :: AllocationCounter
  allocation_info :: LinearAllocationArea
  fillers :: "(nat \<times> int) list"

definition ComputeLimit ::
  "Arch \<Rightarrow> SpaceWithLinearArea \<Rightarrow> nat \<Rightarrow> nat \<Rightarrow> nat \<Rightarrow> failure + nat" where
  "ComputeLimit a s start end' min_size =
     (if (end' + address_modulus a - start) mod address_modulus a < min_size
      then Inl DCHECK_failed
      else if inline_allocation_disabled s
      then Inr ((start + min_size) mod address_modulus a)
      else if SupportsAllocationObserver s \<and> IsActive (allocation_counter s)
      then
        if info_start (allocation_info s) \<noteq> info_top (allocation_info s)
        then Inl DCHECK_failed
        else
          let step = NextBytes (allocation_counter s) in
          if step = 0 then Inl DCHECK_failed
          else
            let rounded_step =
                  size_t_of_int a (RoundSizeDownToObjectAlignment a (static_cast_int (step - 1)));
                step_end = (start + max min_size rounded_step) mod 2 ^ 64;
                new_end = min step_end end'
            in Inr (new_end mod address_modulus a)
      else Inr end')"

text \<open>
  The limit as the spec words it, over the natural numbers: no width, no cast.
\<close>

definition round_down_to_object_alignment :: "Arch \<Rightarrow> nat \<Rightarrow> nat" where
  "round_down_to_object_alignment a n = n - n mod 2 ^ kObjectAlignmentBits a"

definition spec_ComputeLimit ::
  "Arch \<Rightarrow> SpaceWithLinearArea \<Rightarrow> nat \<Rightarrow> nat \<Rightarrow> nat \<Rightarrow> nat" where
  "spec_ComputeLimit a s start end' min_size =
     (if inline_allocation_disabled s then start + min_size
      else if SupportsAllocationObserver s \<and> IsActive (allocation_counter s)
      then min (start + max min_size
                  (round_down_to_object_alignment a (NextBytes (allocation_counter s) - 1)))
               end'
      else end')"

text \<open>
  The calls of \<open>ComputeLimit\<close> the proofs are about. The region and the request are
  values of their types and the request fits the region; pointers have 32 to 64 bits.
  On the observer path the area has no unaccounted allocation and the step is not zero
  (the two \<^verbatim>\<open>DCHECK\<close>s of that path), the step minus one is a non-negative \<^verbatim>\<open>int\<close>,
  and the rounded step added to the start stays below \<open>2 ^ 64\<close>.
\<close>

definition ComputeLimit_in_range ::
  "Arch \<Rightarrow> SpaceWithLinearArea \<Rightarrow> nat \<Rightarrow> nat \<Rightarrow> nat \<Rightarrow> bool" where
  "ComputeLimit_in_range a s start end' min_size =
     (32 \<le> kSystemPointerBits a \<and> kSystemPointerBits a \<le> 64 \<and>
      start + min_size \<le> end' \<and> end' < address_modulus a \<and>
      (if \<not> inline_allocation_disabled s \<and> SupportsAllocationObserver s \<and>
            IsActive (allocation_counter s)
       then info_start (allocation_info s) = info_top (allocation_info s) \<and>
            0 < NextBytes (allocation_counter s) \<and>
            NextBytes (allocation_counter s) \<le> 2 ^ 31 \<and>
            start + round_down_to_object_alignment a (NextBytes (allocation_counter s) - 1)
              < 2 ^ 64
       else True))"

text \<open>A 64-bit build with 8-byte object alignment, and spaces to evaluate the code on.\<close>

definition arch64 :: Arch where
  "arch64 = \<lparr>kSystemPointerBits = 64, kObjectAlignmentBits = 3\<rparr>"

definition observed_space :: "nat \<Rightarrow> SpaceWithLinearArea" where
  "observed_space step =
     \<lparr>inline_allocation_disabled = False, SupportsAllocationObserver = True,
      allocation_counter = \<lparr>IsActive = True, NextBytes = step\<rparr>,
      allocation_info = \<lparr>info_start = 4096, info_top = 4096, info_limit = 4096\<rparr>,
      fillers = []\<rparr>"

text \<open>
  \<^verbatim>\<open>AllocationCounter::InvokeAllocationObservers\<close> is defined in a file that is not among
  the sources: what it does to the counter is the parameter \<open>invoke\<close>.
\<close>

definition InvokeAllocationObservers ::
  "Arch \<Rightarrow> (AllocationCounter \<Rightarrow> nat \<Rightarrow> nat \<Rightarrow> nat \<Rightarrow> AllocationCounter) \<Rightarrow>
   SpaceWithLinearArea \<Rightarrow> nat \<Rightarrow> nat \<Rightarrow> nat \<Rightarrow> nat \<Rightarrow> failure + SpaceWithLinearArea" where
  "InvokeAllocationObservers a invoke s soon_object size_in_bytes aligned_size_in_bytes
       allocation_size =
     (if \<not> size_in_bytes \<le> aligned_size_in_bytes then Inl DCHECK_failed
      else if \<not> aligned_size_in_bytes \<le> allocation_size then Inl DCHECK_failed
      else if \<not> (size_in_bytes = aligned_size_in_bytes \<or>
                   aligned_size_in_bytes = allocation_size) then Inl DCHECK_failed
      else if \<not> SupportsAllocationObserver s \<or> \<not> IsActive (allocation_counter s)
      then Inr s
      else
        let r =
          (if allocation_size \<ge> NextBytes (allocation_counter s)
           then
             if soon_object \<noteq>
                  (info_start (allocation_info s) + aligned_size_in_bytes - size_in_bytes)
                    mod address_modulus a
             then Inl DCHECK_failed
             else Inr (s\<lparr>fillers := (soon_object, static_cast_int size_in_bytes) # fillers s,
                         allocation_counter :=
                           invoke (allocation_counter s) soon_object size_in_bytes
                             allocation_size\<rparr>)
           else Inr s)
        in case r of
             Inl e \<Rightarrow> Inl e
           | Inr s' \<Rightarrow>
               if \<not> (info_limit (allocation_info s') + address_modulus a
                         - info_start (allocation_info s')) mod address_modulus a
                      < NextBytes (allocation_counter s')
               then Inl DCHECK_failed
               else Inr s')"

text \<open>
  The relation between the three sizes that \<open>InvokeAllocationObservers\<close> asserts, and
  the relation in the words of the spec: exactly one of the two equalities.
\<close>

definition asserted_sizes :: "nat \<Rightarrow> nat \<Rightarrow> nat \<Rightarrow> bool" where
  "asserted_sizes size_in_bytes aligned_size_in_bytes allocation_size =
     (size_in_bytes \<le> aligned_size_in_bytes \<and> aligned_size_in_bytes \<le> allocation_size \<and>
      (size_in_bytes = aligned_size_in_bytes \<or> aligned_size_in_bytes = allocation_size))"

definition exactly_one_equality :: "nat \<Rightarrow> nat \<Rightarrow> nat \<Rightarrow> bool" where
  "exactly_one_equality size_in_bytes aligned_size_in_bytes allocation_size =
     ((size_in_bytes = aligned_size_in_bytes) \<noteq> (aligned_size_in_bytes = allocation_size))"

text \<open>A space without allocation observers, and a counter that a step leaves alone.\<close>

definition unobserved_space :: SpaceWithLinearArea where
  "unobserved_space =
     \<lparr>inline_allocation_disabled = False, SupportsAllocationObserver = False,
      allocation_counter = \<lparr>IsActive = False, NextBytes = 0\<rparr>,
      allocation_info = \<lparr>info_start = 4096, info_top = 4096, info_limit = 8192\<rparr>,
      fillers = []\<rparr>"

definition keep_counter :: "AllocationCounter \<Rightarrow> nat \<Rightarrow> nat \<Rightarrow> nat \<Rightarrow> AllocationCounter" where
  "keep_counter c soon_object size_in_bytes allocation_size = c"

section \<open>Graph builder: bytecode, as the builder reads it (maglev-graph-builder.cc)\<close>

text \<open>
  The bytecode enumeration has several hundred members and is declared in a header
  that is not among the sources. A bytecode is modelled by its name, written as in the
  source (\<open>''kMov''\<close> is \<^verbatim>\<open>interpreter::Bytecode::kMov\<close>); every name the builder does
  not mention falls into the \<^verbatim>\<open>default\<close> branch of its switches, as in the source.
\<close>

type_synonym Bytecode = string

record Register =
  index :: int
  is_parameter :: bool

text \<open>
  One position of a \<^verbatim>\<open>BytecodeArrayIterator\<close>: the bytecode, its offset and its first
  register operand. A bytecode array is the list of its positions, in order.
\<close>

record BytecodeInstruction =
  current_bytecode :: Bytecode
  current_offset :: int
  GetRegisterOperand0 :: Register

text \<open>
  Modelled from the spec: \<^verbatim>\<open>SHORT_STAR_BYTECODE_LIST\<close> and \<^verbatim>\<open>Register::FromShortStar\<close>
  are declared in headers that are not among the sources. The spec calls them the short
  accumulator stores; they are the bytecodes \<^verbatim>\<open>Star0\<close> to \<^verbatim>\<open>Star15\<close>, each storing to the
  local register of its number.
\<close>

definition SHORT_STAR_BYTECODE_LIST :: "Bytecode list" where
  "SHORT_STAR_BYTECODE_LIST =
     [''kStar0'', ''kStar1'', ''kStar2'', ''kStar3'', ''kStar4'', ''kStar5'', ''kStar6'',
      ''kStar7'', ''kStar8'', ''kStar9'', ''kStar10'', ''kStar11'', ''kStar12'', ''kStar13'',
      ''kStar14'', ''kStar15'']"

fun short_star_number :: "Bytecode list \<Rightarrow> Bytecode \<Rightarrow> int" where
  "short_star_number [] b = 0"
| "short_star_number (x # xs) b = (if x = b then 0 else 1 + short_star_number xs b)"

definition FromShortStar :: "Bytecode \<Rightarrow> Register" where
  "FromShortStar b =
     \<lparr>index = short_star_number SHORT_STAR_BYTECODE_LIST b, is_parameter = False\<rparr>"

section \<open>Graph builder: the inlining decision\<close>

record BytecodeArrayRef =
  incoming_new_target_or_generator_register_is_valid :: bool
  handler_table_size :: int
  length_in_bytes :: int
  instructions :: "BytecodeInstruction list"

datatype Inlineability = kIsInlineable | kNotInlineable nat

text \<open>\<open>object_id\<close> names the function: \<^verbatim>\<open>equals\<close> compares it.\<close>

record SharedFunctionInfoRef =
  object_id :: nat
  GetInlineability :: Inlineability
  GetBytecodeArray :: BytecodeArrayRef

text \<open>
  The flags the decision reads. The call frequency and its threshold are floating-point
  numbers: their type is the parameter \<open>'f\<close>, and the comparison \<^verbatim>\<open><\<close> on it is a
  parameter of \<open>ShouldInlineCall\<close>.
\<close>

record 'f v8_flags =
  max_maglev_inlined_bytecode_size_cumulative :: int
  min_maglev_inlining_frequency :: 'f
  max_maglev_inlined_bytecode_size_small :: int
  max_maglev_inlined_bytecode_size :: int
  max_maglev_inline_depth :: int

text \<open>What the decision reads and writes of the builder and its graph.\<close>

record InliningState =
  total_inlined_bytecode_size :: int
  shared_function_info :: SharedFunctionInfoRef
  inlining_depth :: int

text \<open>The loop over the callee's bytecodes: true when it finds an arguments-object bytecode.\<close>

fun creates_arguments_object :: "BytecodeInstruction list \<Rightarrow> bool" where
  "creates_arguments_object [] = False"
| "creates_arguments_object (i # rest) =
     (if current_bytecode i = ''kCreateMappedArguments'' \<or>
         current_bytecode i = ''kCreateUnmappedArguments'' \<or>
         current_bytecode i = ''kCreateRestParameter''
      then True
      else creates_arguments_object rest)"

definition ShouldInlineCall ::
  "('f \<Rightarrow> 'f \<Rightarrow> bool) \<Rightarrow> 'f v8_flags \<Rightarrow> InliningState \<Rightarrow> SharedFunctionInfoRef \<Rightarrow>
   nat option \<Rightarrow> 'f \<Rightarrow> bool \<times> InliningState" where
  "ShouldInlineCall float_less flags b shared feedback_vector call_frequency =
     (if total_inlined_bytecode_size b > max_maglev_inlined_bytecode_size_cumulative flags
      then (False, b)
      else if feedback_vector = None then (False, b)
      else if object_id (shared_function_info b) = object_id shared then (False, b)
      else if GetInlineability shared \<noteq> kIsInlineable then (False, b)
      else
        let bytecode = GetBytecodeArray shared in
        if incoming_new_target_or_generator_register_is_valid bytecode then (False, b)
        else if handler_table_size bytecode > 0 then (False, b)
        else if creates_arguments_object (instructions bytecode) then (False, b)
        else if float_less call_frequency (min_maglev_inlining_frequency flags) then (False, b)
        else if length_in_bytes bytecode < max_maglev_inlined_bytecode_size_small flags
        then (True, b)
        else if length_in_bytes bytecode > max_maglev_inlined_bytecode_size flags
        then (False, b)
        else if inlining_depth b > max_maglev_inline_depth flags then (False, b)
        else (True, b\<lparr>total_inlined_bytecode_size :=
                         total_inlined_bytecode_size b + length_in_bytes bytecode\<rparr>))"

text \<open>The rejection checks that come before the two size thresholds, in the claim's words.\<close>

definition passes_earlier_checks ::
  "('f \<Rightarrow> 'f \<Rightarrow> bool) \<Rightarrow> 'f v8_flags \<Rightarrow> InliningState \<Rightarrow> SharedFunctionInfoRef \<Rightarrow>
   nat option \<Rightarrow> 'f \<Rightarrow> bool" where
  "passes_earlier_checks float_less flags b shared feedback_vector call_frequency =
     (total_inlined_bytecode_size b \<le> max_maglev_inlined_bytecode_size_cumulative flags \<and>
      feedback_vector \<noteq> None \<and>
      object_id (shared_function_info b) \<noteq> object_id shared \<and>
      GetInlineability shared = kIsInlineable \<and>
      \<not> incoming_new_target_or_generator_register_is_valid (GetBytecodeArray shared) \<and>
      handler_table_size (GetBytecodeArray shared) \<le> 0 \<and>
      list_all (\<lambda>i. current_bytecode i \<notin>
                  {''kCreateMappedArguments'', ''kCreateUnmappedArguments'',
                   ''kCreateRestParameter''})
        (instructions (GetBytecodeArray shared)) \<and>
      \<not> float_less call_frequency (min_maglev_inlining_frequency flags))"

text \<open>A caller and a small callee to evaluate the decision on.\<close>

definition small_callee :: SharedFunctionInfoRef where
  "small_callee =
     \<lparr>object_id = 2, GetInlineability = kIsInlineable,
      GetBytecodeArray =
        \<lparr>incoming_new_target_or_generator_register_is_valid = False,
         handler_table_size = 0, length_in_bytes = 3,
         instructions =
           [\<lparr>current_bytecode = ''kLdaZero'', current_offset = 0,
             GetRegisterOperand0 = \<lparr>index = 0, is_parameter = False\<rparr>\<rparr>,
            \<lparr>current_bytecode = ''kReturn'', current_offset = 1,
             GetRegisterOperand0 = \<lparr>index = 0, is_parameter = False\<rparr>\<rparr>]\<rparr>\<rparr>"

definition deep_caller :: InliningState where
  "deep_caller =
     \<lparr>total_inlined_bytecode_size = 100,
      shared_function_info =
        \<lparr>object_id = 1, GetInlineability = kIsInlineable,
         GetBytecodeArray =
           \<lparr>incoming_new_target_or_generator_register_is_valid = False,
            handler_table_size = 0, length_in_bytes = 0, instructions = []\<rparr>\<rparr>,
      inlining_depth = 50\<rparr>"

definition some_flags :: "int v8_flags" where
  "some_flags =
     \<lparr>max_maglev_inlined_bytecode_size_cumulative = 920,
      min_maglev_inlining_frequency = 1,
      max_maglev_inlined_bytecode_size_small = 27,
      max_maglev_inlined_bytecode_size = 460,
      max_maglev_inline_depth = 1\<rparr>"

section \<open>Graph builder: looking for the branch that follows a test\<close>

text \<open>
  Value nodes. The opcode enumeration has several hundred members and is declared in a
  header that is not among the sources; an opcode is modelled by its name, written as
  in the source (\<open>''kPhi''\<close> is \<^verbatim>\<open>Opcode::kPhi\<close>). \<^verbatim>\<open>NodeType\<close> is an enumeration over
  unsigned integers (the source casts \<open>-1\<close> to it); a node type is modelled by its
  number. A \<^verbatim>\<open>ValueNode*\<close> is modelled by the node itself, and \<open>node_id\<close> is its
  identity: two references are identical when the nodes are equal. The payload fields
  are read only for the opcode that has them: the root index of a \<^verbatim>\<open>RootConstant\<close>, the
  integer of a \<^verbatim>\<open>SmiConstant\<close> or \<^verbatim>\<open>Int32Constant\<close>, the bits of a \<^verbatim>\<open>Float64Constant\<close>,
  the object of a \<^verbatim>\<open>Constant\<close>, the type of a \<^verbatim>\<open>Phi\<close>, the field representation of a
  \<^verbatim>\<open>LoadPolymorphicTaggedField\<close>, the mode of a \<^verbatim>\<open>ToNumberOrNumeric\<close>, the maps and
  the check type of a map check, the conversion type of a conversion to float64, the
  reason of a \<^verbatim>\<open>Deopt\<close>.
\<close>

type_synonym Opcode = string

type_synonym NodeType = nat

datatype ValueRepresentation = kTagged | kInt32 | kUint32 | kFloat64 | kHoleyFloat64 | kWord64

datatype RootIndex = kUndefinedValue | kNullValue | kTrueValue | kFalseValue | kOtherRoot nat

datatype FieldRepresentation = kSmiField | kHeapObjectField | kOtherField

datatype Conversion = kToNumber | kToNumeric

datatype CheckType = kOmitHeapObjectCheck | kCheckHeapObject

datatype TaggedToFloat64ConversionType = kOnlyNumber | kNumberOrOddball

record MapRef =
  map_id :: nat
  is_stable :: bool
  is_migration_target :: bool

record ValueNode =
  node_id :: nat
  opcode :: Opcode
  value_representation :: ValueRepresentation
  inputs :: "nat list"
  root_index :: RootIndex
  int_value :: int
  float64_bits :: nat
  constant_object :: nat
  phi_type :: NodeType
  field_representation :: FieldRepresentation
  conversion_mode :: Conversion
  node_maps :: "MapRef list"
  check_type :: CheckType
  conversion_type :: TaggedToFloat64ConversionType
  deopt_reason :: string

text \<open>A node of the given identity, opcode, representation and inputs, with no payload.\<close>

definition new_node :: "nat \<Rightarrow> Opcode \<Rightarrow> ValueRepresentation \<Rightarrow> nat list \<Rightarrow> ValueNode" where
  "new_node i opc repr ins =
     \<lparr>node_id = i, opcode = opc, value_representation = repr, inputs = ins,
      root_index = kOtherRoot 0, int_value = 0, float64_bits = 0, constant_object = 0,
      phi_type = 0, field_representation = kOtherField, conversion_mode = kToNumber,
      node_maps = [], check_type = kCheckHeapObject, conversion_type = kOnlyNumber,
      deopt_reason = []\<rparr>"

text \<open>
  The builder, as far as \<open>TryFindNextBranch\<close> reads it. \<open>iterator_position\<close> is the
  position of \<^verbatim>\<open>iterator_\<close> in the bytecode array. \<open>IsOffsetAMergePoint\<close>,
  \<open>RegisterIsLiveOut\<close> (\<^verbatim>\<open>GetOutLivenessFor(offset)->RegisterIsLive(index)\<close>), \<open>is_inline\<close>
  and \<open>inline_exit_offset\<close> are declared in the builder's header, which is not among the
  sources: what they answer is part of the builder.
\<close>

datatype MaglevGraphBuilder = MaglevGraphBuilder
  (bytecode_array: "BytecodeInstruction list")
  (iterator_position: nat)
  (IsOffsetAMergePoint: "int \<Rightarrow> bool")
  (RegisterIsLiveOut: "int \<Rightarrow> int \<Rightarrow> bool")
  (is_inline: bool)
  (inlined_new_target: ValueNode)
  (inline_exit_offset: int)
  (parent: "MaglevGraphBuilder option")

text \<open>
  Modelled from the spec: \<^verbatim>\<open>BytecodeArrayIterator::next_bytecode\<close> is declared in a header
  that is not among the sources. The spec reads the test on it as the Return being the
  last bytecode of the function: it answers \<^verbatim>\<open>kIllegal\<close> when no bytecode follows.
\<close>

definition next_bytecode :: "BytecodeInstruction list \<Rightarrow> Bytecode" where
  "next_bytecode rest = (case rest of [] \<Rightarrow> ''kIllegal'' | i # _ \<Rightarrow> current_bytecode i)"

text \<open>
  The loop of \<open>TryFindNextBranch\<close>: the builder, the positions the copied iterator has
  still to visit, and \<^verbatim>\<open>*inline_level\<close>, which is returned with the answer.
\<close>

fun TryFindNextBranch_loop ::
  "MaglevGraphBuilder \<Rightarrow> BytecodeInstruction list \<Rightarrow> int \<Rightarrow> failure + (int option \<times> int)" where
  "TryFindNextBranch_loop b [] inline_level = Inr (None, inline_level)"
| "TryFindNextBranch_loop
     (MaglevGraphBuilder arr pos merge_point live inl new_target exit_offset par)
     (it # rest) inline_level =
     (if merge_point (current_offset it) then Inr (None, inline_level)
      else if current_bytecode it = ''kMov'' \<or> current_bytecode it = ''kToBoolean'' \<or>
              current_bytecode it = ''kLogicalNot'' \<or>
              current_bytecode it = ''kToBooleanLogicalNot''
      then TryFindNextBranch_loop
             (MaglevGraphBuilder arr pos merge_point live inl new_target exit_offset par)
             rest inline_level
      else if current_bytecode it = ''kStar''
      then
        let store_reg = GetRegisterOperand0 it in
        if is_parameter store_reg \<or> live (current_offset it) (index store_reg)
        then Inr (None, inline_level)
        else TryFindNextBranch_loop
               (MaglevGraphBuilder arr pos merge_point live inl new_target exit_offset par)
               rest inline_level
      else if current_bytecode it \<in> set SHORT_STAR_BYTECODE_LIST
      then
        let store_reg = FromShortStar (current_bytecode it) in
        if is_parameter store_reg \<or> live (current_offset it) (index store_reg)
        then Inr (None, inline_level)
        else TryFindNextBranch_loop
               (MaglevGraphBuilder arr pos merge_point live inl new_target exit_offset par)
               rest inline_level
      else if current_bytecode it = ''kReturn''
      then
        if \<not> inl then Inr (None, inline_level)
        else if opcode new_target \<noteq> ''kRootConstant'' then Inr (None, inline_level)
        else if root_index new_target \<noteq> kUndefinedValue then Inl DCHECK_failed
        else if next_bytecode rest \<noteq> ''kIllegal'' \<or> merge_point exit_offset
        then Inr (None, inline_level)
        else
          (case par of
             None \<Rightarrow> Inl DCHECK_failed
           | Some p \<Rightarrow>
               TryFindNextBranch_loop p (drop (Suc (iterator_position p)) (bytecode_array p))
                 (inline_level + 1))
      else if current_bytecode it \<in>
                {''kJumpIfFalse'', ''kJumpIfFalseConstant'', ''kJumpIfToBooleanFalse'',
                 ''kJumpIfToBooleanFalseConstant'', ''kJumpIfTrue'', ''kJumpIfTrueConstant'',
                 ''kJumpIfToBooleanTrue'', ''kJumpIfToBooleanTrueConstant''}
      then Inr (Some (current_offset it), inline_level)
      else Inr (None, inline_level))"

text \<open>The copied iterator starts at the builder's position and skips the current bytecode.\<close>

definition TryFindNextBranch :: "MaglevGraphBuilder \<Rightarrow> int \<Rightarrow> failure + (int option \<times> int)" where
  "TryFindNextBranch b inline_level =
     TryFindNextBranch_loop b (drop (Suc (iterator_position b)) (bytecode_array b)) inline_level"

text \<open>
  The words of the claim about the scan. The register a position stores the accumulator
  to, when its bytecode is a \<^verbatim>\<open>Star\<close> or a short \<^verbatim>\<open>Star\<close>; the bytecodes the scan supports;
  the positions the scan passes over; and the positions that end fusion.
\<close>

definition store_register :: "BytecodeInstruction \<Rightarrow> Register option" where
  "store_register it =
     (if current_bytecode it = ''kStar'' then Some (GetRegisterOperand0 it)
      else if current_bytecode it \<in> set SHORT_STAR_BYTECODE_LIST
      then Some (FromShortStar (current_bytecode it))
      else None)"

definition accumulator_only_bytecodes :: "Bytecode set" where
  "accumulator_only_bytecodes =
     {''kMov'', ''kToBoolean'', ''kLogicalNot'', ''kToBooleanLogicalNot''}"

definition branch_bytecodes :: "Bytecode set" where
  "branch_bytecodes =
     {''kJumpIfFalse'', ''kJumpIfFalseConstant'', ''kJumpIfToBooleanFalse'',
      ''kJumpIfToBooleanFalseConstant'', ''kJumpIfTrue'', ''kJumpIfTrueConstant'',
      ''kJumpIfToBooleanTrue'', ''kJumpIfToBooleanTrueConstant''}"

definition supported_bytecodes :: "Bytecode set" where
  "supported_bytecodes =
     accumulator_only_bytecodes \<union> {''kStar''} \<union> set SHORT_STAR_BYTECODE_LIST \<union>
     {''kReturn''} \<union> branch_bytecodes"

definition passed_over :: "MaglevGraphBuilder \<Rightarrow> BytecodeInstruction \<Rightarrow> bool" where
  "passed_over b it =
     (\<not> IsOffsetAMergePoint b (current_offset it) \<and>
      (case store_register it of
         Some r \<Rightarrow> \<not> is_parameter r \<and> \<not> RegisterIsLiveOut b (current_offset it) (index r)
       | None \<Rightarrow> current_bytecode it \<in> accumulator_only_bytecodes))"

definition ends_fusion :: "MaglevGraphBuilder \<Rightarrow> BytecodeInstruction \<Rightarrow> bool" where
  "ends_fusion b it =
     (IsOffsetAMergePoint b (current_offset it) \<or>
      (case store_register it of
         Some r \<Rightarrow> is_parameter r \<or> RegisterIsLiveOut b (current_offset it) (index r)
       | None \<Rightarrow> current_bytecode it \<notin> supported_bytecodes))"

text \<open>
  An inlined callee that ends in a test and a Return, inside a caller that branches on
  the result of the call.
\<close>

definition plain_instruction :: "Bytecode \<Rightarrow> int \<Rightarrow> BytecodeInstruction" where
  "plain_instruction b off =
     \<lparr>current_bytecode = b, current_offset = off,
      GetRegisterOperand0 = \<lparr>index = 0, is_parameter = False\<rparr>\<rparr>"

definition undefined_new_target :: ValueNode where
  "undefined_new_target = (new_node 0 ''kRootConstant'' kTagged [])\<lparr>root_index := kUndefinedValue\<rparr>"

definition caller_builder :: MaglevGraphBuilder where
  "caller_builder =
     MaglevGraphBuilder
       [plain_instruction ''kCallProperty0'' 0, plain_instruction ''kStar0'' 4,
        plain_instruction ''kJumpIfFalse'' 5, plain_instruction ''kReturn'' 7]
       0 (\<lambda>off. False) (\<lambda>off reg. False) False undefined_new_target 0 None"

definition callee_builder :: MaglevGraphBuilder where
  "callee_builder =
     MaglevGraphBuilder
       [plain_instruction ''kTestNull'' 0, plain_instruction ''kLogicalNot'' 1,
        plain_instruction ''kReturn'' 2]
       0 (\<lambda>off. False) (\<lambda>off reg. False) True undefined_new_target 3 (Some caller_builder)"

text \<open>The positions at which the scan leaves an inlined function for its caller.\<close>

definition crosses_return ::
  "MaglevGraphBuilder \<Rightarrow> BytecodeInstruction \<Rightarrow> BytecodeInstruction list \<Rightarrow> bool" where
  "crosses_return b it rest =
     (\<not> IsOffsetAMergePoint b (current_offset it) \<and> current_bytecode it = ''kReturn'' \<and>
      is_inline b \<and> opcode (inlined_new_target b) = ''kRootConstant'' \<and>
      root_index (inlined_new_target b) = kUndefinedValue \<and>
      next_bytecode rest = ''kIllegal'' \<and> \<not> IsOffsetAMergePoint b (inline_exit_offset b))"

definition caller_with_live_register :: MaglevGraphBuilder where
  "caller_with_live_register =
     MaglevGraphBuilder
       [plain_instruction ''kTestNull'' 0, plain_instruction ''kStar0'' 1,
        plain_instruction ''kJumpIfFalse'' 2, plain_instruction ''kReturn'' 4]
       0 (\<lambda>off. False) (\<lambda>off reg. reg = 0) False undefined_new_target 0 None"

text \<open>
  A caller whose bytecode after the call is a merge point, with its inlined callee; and
  the callee's bytecode as a function that is not inlined.
\<close>

definition caller_with_merge_point :: MaglevGraphBuilder where
  "caller_with_merge_point =
     MaglevGraphBuilder
       [plain_instruction ''kCallProperty0'' 0, plain_instruction ''kStar0'' 4,
        plain_instruction ''kJumpIfFalse'' 5, plain_instruction ''kReturn'' 7]
       0 (\<lambda>off. off = 4) (\<lambda>off reg. False) False undefined_new_target 0 None"

definition callee_of_merging_caller :: MaglevGraphBuilder where
  "callee_of_merging_caller =
     MaglevGraphBuilder
       [plain_instruction ''kTestNull'' 0, plain_instruction ''kLogicalNot'' 1,
        plain_instruction ''kReturn'' 2]
       0 (\<lambda>off. False) (\<lambda>off reg. False) True undefined_new_target 3
       (Some caller_with_merge_point)"

definition function_builder :: MaglevGraphBuilder where
  "function_builder =
     MaglevGraphBuilder
       [plain_instruction ''kTestNull'' 0, plain_instruction ''kLogicalNot'' 1,
        plain_instruction ''kReturn'' 2]
       0 (\<lambda>off. False) (\<lambda>off reg. False) False undefined_new_target 0 None"

section \<open>Graph builder: predecessor counts around loop peeling\<close>

text \<open>
  The fields of the builder that \<open>MergeDeadIntoFrameState\<close>,
  \<open>MergeDeadLoopIntoFrameState\<close> and the end of \<open>PeelLoop\<close> read and write. The arrays
  \<open>predecessors\<close> and \<open>merge_states\<close> are indexed by bytecode offset. The element type of
  \<^verbatim>\<open>predecessors_\<close> is declared in the builder's header, which is not among the sources:
  it is the parameter \<open>'a\<close>, a type with \<open>+ 1\<close> and \<open>- 1\<close> (the integers, or the
  unsigned 32-bit integers with their wrap-around). A merge state is a value of the
  parameter \<open>'m\<close>; \<^verbatim>\<open>MergePointInterpreterFrameState\<close> is not among the sources, and its
  three methods that the two functions call are the parameters \<open>MergeDead\<close>,
  \<open>MergeDeadLoop\<close> and \<open>is_unreachable_loop\<close>.
\<close>

record ('a, 'm) PeelingState =
  predecessors :: "'a list"
  decremented_predecessor_offsets :: "int list"
  in_peeled_iteration :: bool
  merge_states :: "'m option list"

record 'm MergePointMethods =
  MergeDead :: "'m \<Rightarrow> 'm"
  MergeDeadLoop :: "'m \<Rightarrow> 'm"
  is_unreachable_loop :: "'m \<Rightarrow> bool"

definition in_bounds :: "int \<Rightarrow> 'x list \<Rightarrow> bool" where
  "in_bounds i xs = (0 \<le> i \<and> i < int (length xs))"

definition MergeDeadIntoFrameState ::
  "'m MergePointMethods \<Rightarrow> ('a::ring_1, 'm) PeelingState \<Rightarrow> int \<Rightarrow>
   failure + ('a, 'm) PeelingState" where
  "MergeDeadIntoFrameState ms b target =
     (if \<not> in_bounds target (predecessors b) \<or> \<not> in_bounds target (merge_states b)
      then Inl OutOfBounds
      else
        let b1 = b\<lparr>predecessors :=
                      (predecessors b)[nat target := predecessors b ! nat target - 1]\<rparr>;
            b2 = (if in_peeled_iteration b1
                  then b1\<lparr>decremented_predecessor_offsets :=
                             decremented_predecessor_offsets b1 @ [target]\<rparr>
                  else b1)
        in case merge_states b2 ! nat target of
             None \<Rightarrow> Inr b2
           | Some m \<Rightarrow>
               let m' = MergeDead ms m in
               if is_unreachable_loop ms m'
               then Inr (b2\<lparr>merge_states := (merge_states b2)[nat target := None]\<rparr>)
               else Inr (b2\<lparr>merge_states := (merge_states b2)[nat target := Some m']\<rparr>))"

definition MergeDeadLoopIntoFrameState ::
  "'m MergePointMethods \<Rightarrow> ('a::ring_1, 'm) PeelingState \<Rightarrow> int \<Rightarrow>
   failure + ('a, 'm) PeelingState" where
  "MergeDeadLoopIntoFrameState ms b target =
     (if \<not> in_bounds target (merge_states b) then Inl OutOfBounds
      else
        case merge_states b ! nat target of
          None \<Rightarrow> Inr b
        | Some m \<Rightarrow>
            if \<not> in_bounds target (predecessors b) then Inl OutOfBounds
            else
              let b1 = b\<lparr>predecessors :=
                            (predecessors b)[nat target := predecessors b ! nat target - 1]\<rparr>;
                  b2 = (if in_peeled_iteration b1
                        then b1\<lparr>decremented_predecessor_offsets :=
                                   decremented_predecessor_offsets b1 @ [target]\<rparr>
                        else b1)
              in if is_unreachable_loop ms m then Inr b2
                 else Inr (b2\<lparr>merge_states :=
                                (merge_states b2)[nat target := Some (MergeDeadLoop ms m)]\<rparr>))"

text \<open>
  The loop of \<open>PeelLoop\<close> that resets the predecessor counts. Its first argument is the
  vector \<^verbatim>\<open>decremented_predecessor_offsets_\<close> read from the back: the head of the list is
  \<^verbatim>\<open>back()\<close>, and the tail is the vector after \<^verbatim>\<open>pop_back()\<close>.
\<close>

fun reset_predecessors ::
  "int list \<Rightarrow> int \<Rightarrow> int \<Rightarrow> ('a::ring_1) list \<Rightarrow> failure + 'a list" where
  "reset_predecessors [] loop_header current preds = Inr preds"
| "reset_predecessors (back # popped) loop_header current preds =
     (if \<not> back \<ge> loop_header then Inl DCHECK_failed
      else if back \<le> current
      then
        if \<not> in_bounds back preds then Inl OutOfBounds
        else reset_predecessors popped loop_header current
               (preds[nat back := preds ! nat back + 1])
      else reset_predecessors popped loop_header current preds)"

text \<open>
  The end of \<open>PeelLoop\<close>, from the statement after the peeled iteration on, as far as
  it writes the predecessor counts and the vector of decremented offsets: the flag is
  cleared, the loop above runs with \<^verbatim>\<open>iterator_.current_offset()\<close> at the \<^verbatim>\<open>JumpLoop\<close>
  (\<open>jump_loop_offset\<close>), and when the
  peeled iteration ended without a current block the count of the loop header is set to
  zero. (The statements in between rewind the handler table and re-create merge states
  and jump targets; they write neither of the two.)
\<close>

definition PeelLoop_after_peeled_iteration ::
  "('a::ring_1, 'm) PeelingState \<Rightarrow> int \<Rightarrow> int \<Rightarrow> bool \<Rightarrow> failure + ('a, 'm) PeelingState" where
  "PeelLoop_after_peeled_iteration b loop_header jump_loop_offset has_current_block =
     (case reset_predecessors (rev (decremented_predecessor_offsets b)) loop_header
             jump_loop_offset (predecessors b) of
        Inl e \<Rightarrow> Inl e
      | Inr preds \<Rightarrow>
          let b1 = b\<lparr>in_peeled_iteration := False, predecessors := preds,
                      decremented_predecessor_offsets := []\<rparr>
          in if has_current_block then Inr b1
             else if \<not> in_bounds loop_header (predecessors b1) then Inl OutOfBounds
             else Inr (b1\<lparr>predecessors := (predecessors b1)[nat loop_header := 0]\<rparr>))"

text \<open>
  What the peeled iteration does to these fields: a sequence of dead merges, into
  forward targets and into loop headers.
\<close>

datatype DeadMerge = DeadInto int | DeadLoopInto int

fun dead_target :: "DeadMerge \<Rightarrow> int" where
  "dead_target (DeadInto t) = t"
| "dead_target (DeadLoopInto t) = t"

fun peeled_iteration ::
  "'m MergePointMethods \<Rightarrow> ('a::ring_1, 'm) PeelingState \<Rightarrow> DeadMerge list \<Rightarrow>
   failure + ('a, 'm) PeelingState" where
  "peeled_iteration ms b [] = Inr b"
| "peeled_iteration ms b (DeadInto t # rest) =
     (case MergeDeadIntoFrameState ms b t of
        Inl e \<Rightarrow> Inl e
      | Inr b' \<Rightarrow> peeled_iteration ms b' rest)"
| "peeled_iteration ms b (DeadLoopInto t # rest) =
     (case MergeDeadLoopIntoFrameState ms b t of
        Inl e \<Rightarrow> Inl e
      | Inr b' \<Rightarrow> peeled_iteration ms b' rest)"

text \<open>
  A loop from offset 1 to the \<^verbatim>\<open>JumpLoop\<close> at offset 4, in a function of 8 bytes of
  bytecode where every offset has two predecessors and no merge state yet; and the dead
  merges of a peeled iteration, one into the loop header and one into offset 6, behind
  the loop.
\<close>

definition no_methods :: "unit MergePointMethods" where
  "no_methods = \<lparr>MergeDead = (\<lambda>m. m), MergeDeadLoop = (\<lambda>m. m), is_unreachable_loop = (\<lambda>m. False)\<rparr>"

definition peeling_start :: "(int, unit) PeelingState" where
  "peeling_start =
     \<lparr>predecessors = [2, 2, 2, 2, 2, 2, 2, 2], decremented_predecessor_offsets = [],
      in_peeled_iteration = True,
      merge_states = [None, None, None, None, None, None, None, None]\<rparr>"

definition peeling_dead_merges :: "DeadMerge list" where
  "peeling_dead_merges = [DeadInto 1, DeadInto 6]"

definition peeling_after_iteration :: "(int, unit) PeelingState" where
  "peeling_after_iteration =
     peeling_start\<lparr>predecessors := [2, 1, 2, 2, 2, 2, 1, 2],
                    decremented_predecessor_offsets := [1, 6]\<rparr>"

definition peeling_after_reset :: "(int, unit) PeelingState" where
  "peeling_after_reset =
     peeling_start\<lparr>predecessors := [2, 2, 2, 2, 2, 2, 1, 2],
                    decremented_predecessor_offsets := [], in_peeled_iteration := False\<rparr>"

text \<open>One decrement of a predecessor count, as both dead merges do it.\<close>

definition decrement_at :: "int \<Rightarrow> ('a::ring_1) list \<Rightarrow> 'a list" where
  "decrement_at t p = p[nat t := p ! nat t - 1]"

section \<open>Graph builder: known node aspects and the graph under construction\<close>

datatype ToNumberHint = kAssumeSmi | kDisallowToNumber | kAssumeNumber | kAssumeNumberOrOddball

datatype UseRepresentation =
  kUseTagged | kUseInt32 | kUseTruncatedInt32 | kUseUint32 | kUseFloat64 | kUseHoleyFloat64

datatype UseReprHintRecording = kRecord | kDoNotRecord


text \<open>
  What the builder asks of declarations that are not among the sources: the lattice of
  node types (\<open>NodeTypeIs\<close>, \<open>CombineType\<close>, \<open>IntersectType\<close>, the numbers of the named
  types and of \<^verbatim>\<open>static_cast<NodeType>(-1)\<close>), the static types of maps and constants, the
  heap broker's view of objects (an object is named by a number), and the arithmetic of
  doubles (a double is modelled by its 64 bits, as a number). All of them are parameters:
  nothing is assumed about what they answer.
\<close>

record Broker =
  NodeTypeIs :: "NodeType \<Rightarrow> NodeType \<Rightarrow> bool"
  CombineType :: "NodeType \<Rightarrow> NodeType \<Rightarrow> NodeType"
  IntersectType :: "NodeType \<Rightarrow> NodeType \<Rightarrow> NodeType"
  NodeType_minus_one :: NodeType
  NodeType_kUnknown :: NodeType
  NodeType_kSmi :: NodeType
  NodeType_kNumber :: NodeType
  NodeType_kNumberOrOddball :: NodeType
  NodeType_kHeapNumber :: NodeType
  NodeType_kAnyHeapObject :: NodeType
  NodeType_kBoolean :: NodeType
  NodeType_kOddball :: NodeType
  NodeType_kString :: NodeType
  NodeType_kInternalizedString :: NodeType
  NodeType_kJSReceiver :: NodeType
  NodeType_kName :: NodeType
  NodeType_kCallable :: NodeType
  StaticTypeForMap :: "MapRef \<Rightarrow> NodeType"
  StaticTypeForConstant :: "nat \<Rightarrow> NodeType"
  IsInstanceOfNodeType :: "MapRef \<Rightarrow> NodeType \<Rightarrow> bool"
  object_map :: "nat \<Rightarrow> MapRef"
  root_object :: "RootIndex \<Rightarrow> nat"
  IsHeapNumber :: "nat \<Rightarrow> bool"
  IsOddball :: "nat \<Rightarrow> bool"
  heap_number_value :: "nat \<Rightarrow> nat"
  to_number_raw :: "nat \<Rightarrow> nat"
  IsSmiDouble :: "nat \<Rightarrow> bool"
  FastD2I :: "nat \<Rightarrow> int"
  double_of_int :: "int \<Rightarrow> nat"

text \<open>
  Modelled from the spec: \<^verbatim>\<open>NodeInfo\<close> and \<^verbatim>\<open>KnownNodeAspects\<close> are declared in a header
  that is not among the sources. The spec describes the table as keyed by value node
  identity and mapping to the inferred node type, a possible-maps set with a stability
  flag, and the cached alternative representations of the same value. An entry that is
  created holds the unknown type, no known maps and no alternative.
\<close>

record NodeInfo =
  info_type :: NodeType
  possible_maps_are_known :: bool
  possible_maps :: "MapRef list"
  any_map_is_unstable :: bool
  alternative_tagged :: "ValueNode option"
  alternative_int32 :: "ValueNode option"
  alternative_truncated_int32_to_number :: "ValueNode option"
  alternative_float64 :: "ValueNode option"
  alternative_constant :: "ValueNode option"

text \<open>
  The builder and its graph, as far as the conversions and the map check touch them.
  \<open>graph_nodes\<close> lists the nodes added to blocks of the graph, in the order of their
  creation, and \<open>current_block_open\<close> tells whether a block is under construction.
  The graph keeps one node per int32 and per float64 constant. \<open>use_repr_hints\<close> holds
  the representation hints recorded on phis, by node identity.
\<close>

record GraphBuilder =
  known_node_aspects :: "nat \<Rightarrow> NodeInfo option"
  any_map_for_any_node_is_unstable :: bool
  graph_nodes :: "ValueNode list"
  current_block_open :: bool
  next_node_id :: nat
  int32_constants :: "int \<Rightarrow> ValueNode option"
  float64_constants :: "nat \<Rightarrow> ValueNode option"
  use_repr_hints :: "nat \<Rightarrow> UseRepresentation list"
  stable_map_dependencies :: "MapRef list"

definition bind_result :: "failure + 'x \<Rightarrow> ('x \<Rightarrow> failure + 'y) \<Rightarrow> failure + 'y" where
  "bind_result m f = (case m of Inl e \<Rightarrow> Inl e | Inr x \<Rightarrow> f x)"

definition new_NodeInfo :: "Broker \<Rightarrow> NodeInfo" where
  "new_NodeInfo E =
     \<lparr>info_type = NodeType_kUnknown E, possible_maps_are_known = False, possible_maps = [],
      any_map_is_unstable = False, alternative_tagged = None, alternative_int32 = None,
      alternative_truncated_int32_to_number = None, alternative_float64 = None,
      alternative_constant = None\<rparr>"

definition TryGetInfoFor :: "GraphBuilder \<Rightarrow> ValueNode \<Rightarrow> NodeInfo option" where
  "TryGetInfoFor s n = known_node_aspects s (node_id n)"

definition GetOrCreateInfoFor :: "Broker \<Rightarrow> GraphBuilder \<Rightarrow> ValueNode \<Rightarrow> NodeInfo \<times> GraphBuilder" where
  "GetOrCreateInfoFor E s n =
     (case known_node_aspects s (node_id n) of
        Some info \<Rightarrow> (info, s)
      | None \<Rightarrow>
          (new_NodeInfo E,
           s\<lparr>known_node_aspects := (known_node_aspects s)(node_id n \<mapsto> new_NodeInfo E)\<rparr>))"

text \<open>
  A write through a \<^verbatim>\<open>NodeInfo*\<close> (or through the reference to its alternatives): the
  entry of the node is replaced by its image. The pointer is taken from
  \<open>GetOrCreateInfoFor\<close>, so the entry exists.
\<close>

definition update_info :: "GraphBuilder \<Rightarrow> ValueNode \<Rightarrow> (NodeInfo \<Rightarrow> NodeInfo) \<Rightarrow> GraphBuilder" where
  "update_info s n f =
     (case known_node_aspects s (node_id n) of
        None \<Rightarrow> s
      | Some info \<Rightarrow> s\<lparr>known_node_aspects := (known_node_aspects s)(node_id n \<mapsto> f info)\<rparr>)"

text \<open>
  Modelled from the spec: \<^verbatim>\<open>RecordUseReprHintIfPhi\<close>, \<^verbatim>\<open>AddNewNode\<close>, \<^verbatim>\<open>GetInt32Constant\<close>,
  \<^verbatim>\<open>GetFloat64Constant\<close> and \<^verbatim>\<open>EmitUnconditionalDeopt\<close> are defined in the builder's
  header, which is not among the sources. After the spec: a hint is recorded on the node
  when it is a phi; \<open>AddNewNode\<close> emits exactly one node, appended to the block under
  construction, and returns it (the argument carries the opcode, the representation,
  the inputs and the payload of the node class; the identity is new); constants are
  folded to the graph's node for the constant, which is created at the first request and
  is not a node of a block; an unconditional deopt ends the block with one
  \<^verbatim>\<open>Deopt\<close> node and the result is \<^verbatim>\<open>ReduceResult::DoneWithAbort\<close>.
\<close>

definition RecordUseReprHintIfPhi :: "GraphBuilder \<Rightarrow> ValueNode \<Rightarrow> UseRepresentation \<Rightarrow> GraphBuilder" where
  "RecordUseReprHintIfPhi s n repr =
     (if opcode n = ''kPhi''
      then s\<lparr>use_repr_hints :=
               (use_repr_hints s)(node_id n := List.insert repr (use_repr_hints s (node_id n)))\<rparr>
      else s)"

definition AddNewNode :: "GraphBuilder \<Rightarrow> ValueNode \<Rightarrow> ValueNode \<times> GraphBuilder" where
  "AddNewNode s n =
     (let node = n\<lparr>node_id := next_node_id s\<rparr>
      in (node, s\<lparr>graph_nodes := graph_nodes s @ [node], next_node_id := Suc (next_node_id s)\<rparr>))"

definition GetInt32Constant :: "GraphBuilder \<Rightarrow> int \<Rightarrow> ValueNode \<times> GraphBuilder" where
  "GetInt32Constant s c =
     (case int32_constants s c of
        Some node \<Rightarrow> (node, s)
      | None \<Rightarrow>
          let node = (new_node (next_node_id s) ''kInt32Constant'' kInt32 [])\<lparr>int_value := c\<rparr>
          in (node, s\<lparr>int32_constants := (int32_constants s)(c \<mapsto> node),
                       next_node_id := Suc (next_node_id s)\<rparr>))"

definition GetFloat64Constant :: "GraphBuilder \<Rightarrow> nat \<Rightarrow> ValueNode \<times> GraphBuilder" where
  "GetFloat64Constant s bits =
     (case float64_constants s bits of
        Some node \<Rightarrow> (node, s)
      | None \<Rightarrow>
          let node = (new_node (next_node_id s) ''kFloat64Constant'' kFloat64 [])
                       \<lparr>float64_bits := bits\<rparr>
          in (node, s\<lparr>float64_constants := (float64_constants s)(bits \<mapsto> node),
                       next_node_id := Suc (next_node_id s)\<rparr>))"


section \<open>Graph builder: static and known types\<close>

text \<open>The static \<open>TryGetConstant\<close>: the object of a \<^verbatim>\<open>Constant\<close> or of a \<^verbatim>\<open>RootConstant\<close>.\<close>

definition TryGetConstant_static :: "Broker \<Rightarrow> ValueNode \<Rightarrow> nat option" where
  "TryGetConstant_static E n =
     (if opcode n = ''kConstant'' then Some (constant_object n)
      else if opcode n = ''kRootConstant'' then Some (root_object E (root_index n))
      else None)"

definition StaticTypeForNode :: "Broker \<Rightarrow> ValueNode \<Rightarrow> failure + NodeType" where
  "StaticTypeForNode E n =
     (case value_representation n of
        kInt32 \<Rightarrow> Inr (NodeType_kNumber E)
      | kUint32 \<Rightarrow> Inr (NodeType_kNumber E)
      | kFloat64 \<Rightarrow> Inr (NodeType_kNumber E)
      | kHoleyFloat64 \<Rightarrow> Inr (NodeType_kNumberOrOddball E)
      | kWord64 \<Rightarrow> Inl UNREACHABLE_hit
      | kTagged \<Rightarrow>
          if opcode n = ''kPhi'' then Inr (phi_type n)
          else if opcode n \<in> {''kCheckedSmiTagInt32'', ''kCheckedSmiTagUint32'',
                  ''kCheckedSmiTagFloat64'', ''kUnsafeSmiTag'', ''kSmiConstant''}
          then Inr (NodeType_kSmi E)
          else if opcode n \<in> {''kInt32ToNumber'', ''kUint32ToNumber'', ''kFloat64ToTagged''}
          then Inr (NodeType_kNumber E)
          else if opcode n = ''kHoleyFloat64ToTagged'' then Inr (NodeType_kNumberOrOddball E)
          else if opcode n \<in> {''kAllocateRaw'', ''kFoldedAllocation''}
          then Inr (NodeType_kAnyHeapObject E)
          else if opcode n = ''kRootConstant'' \<and> root_index n \<in> {kTrueValue, kFalseValue}
          then Inr (NodeType_kBoolean E)
          else if opcode n = ''kRootConstant'' \<and> root_index n \<in> {kUndefinedValue, kNullValue}
          then Inr (NodeType_kOddball E)
          else if opcode n = ''kRootConstant'' \<or> opcode n = ''kConstant''
          then
            (case TryGetConstant_static E n of
               None \<Rightarrow> Inl CHECK_failed
             | Some ref \<Rightarrow> Inr (StaticTypeForConstant E ref))
          else if opcode n = ''kLoadPolymorphicTaggedField''
          then
            (case field_representation n of
               kSmiField \<Rightarrow> Inr (NodeType_kSmi E)
             | kHeapObjectField \<Rightarrow> Inr (NodeType_kAnyHeapObject E)
             | kOtherField \<Rightarrow> Inr (NodeType_kUnknown E))
          else if opcode n = ''kToNumberOrNumeric''
          then (if conversion_mode n = kToNumber then Inr (NodeType_kNumber E)
                else Inr (NodeType_kUnknown E))
          else if opcode n \<in> {''kToString'', ''kNumberToString'', ''kStringConcat''}
          then Inr (NodeType_kString E)
          else if opcode n = ''kCheckedInternalizedString''
          then Inr (NodeType_kInternalizedString E)
          else if opcode n = ''kToObject'' then Inr (NodeType_kJSReceiver E)
          else if opcode n = ''kToName'' then Inr (NodeType_kName E)
          else if opcode n \<in> {''kFastCreateClosure'', ''kCreateClosure''}
          then Inr (NodeType_kCallable E)
          else if opcode n \<in>
                    {''kFloat64Equal'', ''kFloat64GreaterThan'', ''kFloat64GreaterThanOrEqual'',
                     ''kFloat64LessThan'', ''kFloat64LessThanOrEqual'', ''kFloat64StrictEqual'',
                     ''kInt32Equal'', ''kInt32GreaterThan'', ''kInt32GreaterThanOrEqual'',
                     ''kInt32LessThan'', ''kInt32LessThanOrEqual'', ''kInt32StrictEqual'',
                     ''kGenericEqual'', ''kGenericStrictEqual'', ''kGenericLessThan'',
                     ''kGenericLessThanOrEqual'', ''kGenericGreaterThan'',
                     ''kGenericGreaterThanOrEqual'', ''kLogicalNot'', ''kStringEqual'',
                     ''kTaggedEqual'', ''kTaggedNotEqual'', ''kTestInstanceOf'', ''kTestTypeOf'',
                     ''kTestUndetectable'', ''kToBoolean'', ''kToBooleanLogicalNot''}
          then Inr (NodeType_kBoolean E)
          else Inr (NodeType_kUnknown E))"

text \<open>
  \<open>CheckStaticType\<close> and \<open>EnsureType\<close> return their answer together with what they
  write to \<^verbatim>\<open>*old_type\<close>.
\<close>

definition CheckStaticType :: "Broker \<Rightarrow> ValueNode \<Rightarrow> NodeType \<Rightarrow> failure + (bool \<times> NodeType)" where
  "CheckStaticType E n type =
     bind_result (StaticTypeForNode E n)
       (\<lambda>static_type. Inr (NodeTypeIs E static_type type, static_type))"

definition EnsureType ::
  "Broker \<Rightarrow> GraphBuilder \<Rightarrow> ValueNode \<Rightarrow> NodeType \<Rightarrow> failure + (bool \<times> NodeType \<times> GraphBuilder)" where
  "EnsureType E s n type =
     bind_result (CheckStaticType E n type)
       (\<lambda>(static_ok, static_type).
          if static_ok then Inr (True, static_type, s)
          else
            let (known_info, s1) = GetOrCreateInfoFor E s n;
                old_type = info_type known_info
            in if NodeTypeIs E old_type type then Inr (True, old_type, s1)
               else Inr (False, old_type,
                         update_info s1 n
                           (\<lambda>i. i\<lparr>info_type := CombineType E (info_type i) type\<rparr>)))"

definition BuildSmiUntag :: "Broker \<Rightarrow> GraphBuilder \<Rightarrow> ValueNode \<Rightarrow> failure + (ValueNode \<times> GraphBuilder)" where
  "BuildSmiUntag E s n =
     bind_result (EnsureType E s n (NodeType_kSmi E))
       (\<lambda>(ensured, old_type, s1).
          if ensured then Inr (AddNewNode s1 (new_node 0 ''kUnsafeSmiUntag'' kInt32 [node_id n]))
          else Inr (AddNewNode s1 (new_node 0 ''kCheckedSmiUntag'' kInt32 [node_id n])))"

definition TaggedToFloat64ConversionTypeToNodeType ::
  "Broker \<Rightarrow> TaggedToFloat64ConversionType \<Rightarrow> NodeType" where
  "TaggedToFloat64ConversionTypeToNodeType E c =
     (case c of kOnlyNumber \<Rightarrow> NodeType_kNumber E | kNumberOrOddball \<Rightarrow> NodeType_kNumberOrOddball E)"

definition BuildNumberOrOddballToFloat64 ::
  "Broker \<Rightarrow> GraphBuilder \<Rightarrow> ValueNode \<Rightarrow> TaggedToFloat64ConversionType \<Rightarrow>
   failure + (ValueNode \<times> GraphBuilder)" where
  "BuildNumberOrOddballToFloat64 E s n conv =
     bind_result (EnsureType E s n (TaggedToFloat64ConversionTypeToNodeType E conv))
       (\<lambda>(ensured, old_type, s1).
          if ensured
          then
            if old_type = NodeType_kSmi E
            then
              let (untagged_smi, s2) =
                    AddNewNode s1 (new_node 0 ''kUnsafeSmiUntag'' kInt32 [node_id n])
              in Inr (AddNewNode s2
                        (new_node 0 ''kChangeInt32ToFloat64'' kFloat64 [node_id untagged_smi]))
            else Inr (AddNewNode s1
                        ((new_node 0 ''kUncheckedNumberOrOddballToFloat64'' kFloat64 [node_id n])
                           \<lparr>conversion_type := conv\<rparr>))
          else Inr (AddNewNode s1
                      ((new_node 0 ''kCheckedNumberOrOddballToFloat64'' kFloat64 [node_id n])
                         \<lparr>conversion_type := conv\<rparr>)))"

section \<open>Graph builder: the conversions between representations\<close>

text \<open>
  \<^verbatim>\<open>alternative.set_tagged(node)\<close> and its siblings store the node in the entry of the
  value and return it.
\<close>

definition set_tagged :: "ValueNode \<Rightarrow> ValueNode \<times> GraphBuilder \<Rightarrow> ValueNode \<times> GraphBuilder" where
  "set_tagged v r =
     (fst r, update_info (snd r) v (\<lambda>i. i\<lparr>alternative_tagged := Some (fst r)\<rparr>))"

definition set_int32 :: "ValueNode \<Rightarrow> ValueNode \<times> GraphBuilder \<Rightarrow> ValueNode \<times> GraphBuilder" where
  "set_int32 v r =
     (fst r, update_info (snd r) v (\<lambda>i. i\<lparr>alternative_int32 := Some (fst r)\<rparr>))"

definition set_float64 :: "ValueNode \<Rightarrow> ValueNode \<times> GraphBuilder \<Rightarrow> ValueNode \<times> GraphBuilder" where
  "set_float64 v r =
     (fst r, update_info (snd r) v (\<lambda>i. i\<lparr>alternative_float64 := Some (fst r)\<rparr>))"

text \<open>
  Modelled from the spec: \<^verbatim>\<open>NodeTypeIsSmi\<close>, \<^verbatim>\<open>NodeTypeIsNumber\<close> and \<^verbatim>\<open>NodeInfo::is_smi\<close>
  are declared in headers that are not among the sources; they ask whether the type is
  at most the named type in the lattice.
\<close>

definition NodeTypeIsSmi :: "Broker \<Rightarrow> NodeType \<Rightarrow> bool" where
  "NodeTypeIsSmi E t = NodeTypeIs E t (NodeType_kSmi E)"

definition NodeTypeIsNumber :: "Broker \<Rightarrow> NodeType \<Rightarrow> bool" where
  "NodeTypeIsNumber E t = NodeTypeIs E t (NodeType_kNumber E)"

text \<open>What a \<^verbatim>\<open>NodeInfo*\<close> taken earlier points to now: the entry of the node.\<close>

definition current_info :: "Broker \<Rightarrow> GraphBuilder \<Rightarrow> ValueNode \<Rightarrow> NodeInfo" where
  "current_info E s n =
     (case known_node_aspects s (node_id n) of None \<Rightarrow> new_NodeInfo E | Some info \<Rightarrow> info)"

definition GetTaggedValue ::
  "Broker \<Rightarrow> GraphBuilder \<Rightarrow> ValueNode \<Rightarrow> UseReprHintRecording \<Rightarrow>
   failure + (ValueNode \<times> GraphBuilder)" where
  "GetTaggedValue E s v record_use_repr_hint =
     (let s0 = (if record_use_repr_hint = kRecord
                then RecordUseReprHintIfPhi s v kUseTagged else s)
      in if value_representation v = kTagged then Inr (v, s0)
         else
           let (node_info, s1) = GetOrCreateInfoFor E s0 v in
           case alternative_tagged node_info of
             Some alt \<Rightarrow> Inr (alt, s1)
           | None \<Rightarrow>
               (case value_representation v of
                  kInt32 \<Rightarrow>
                    if NodeTypeIsSmi E (info_type node_info)
                    then Inr (set_tagged v
                           (AddNewNode s1 (new_node 0 ''kUnsafeSmiTag'' kTagged [node_id v])))
                    else Inr (set_tagged v
                           (AddNewNode s1 (new_node 0 ''kInt32ToNumber'' kTagged [node_id v])))
                | kUint32 \<Rightarrow>
                    if NodeTypeIsSmi E (info_type node_info)
                    then Inr (set_tagged v
                           (AddNewNode s1 (new_node 0 ''kUnsafeSmiTag'' kTagged [node_id v])))
                    else Inr (set_tagged v
                           (AddNewNode s1 (new_node 0 ''kUint32ToNumber'' kTagged [node_id v])))
                | kFloat64 \<Rightarrow>
                    Inr (set_tagged v
                      (AddNewNode s1 (new_node 0 ''kFloat64ToTagged'' kTagged [node_id v])))
                | kHoleyFloat64 \<Rightarrow>
                    Inr (set_tagged v
                      (AddNewNode s1 (new_node 0 ''kHoleyFloat64ToTagged'' kTagged [node_id v])))
                | kTagged \<Rightarrow> Inl UNREACHABLE_hit
                | kWord64 \<Rightarrow> Inl UNREACHABLE_hit))"

definition GetInt32 :: "Broker \<Rightarrow> GraphBuilder \<Rightarrow> ValueNode \<Rightarrow> failure + (ValueNode \<times> GraphBuilder)" where
  "GetInt32 E s v =
     (let s0 = RecordUseReprHintIfPhi s v kUseInt32
      in if value_representation v = kInt32 then Inr (v, s0)
         else if opcode v = ''kSmiConstant'' then Inr (GetInt32Constant s0 (int_value v))
         else if opcode v = ''kFloat64Constant'' \<and> IsSmiDouble E (float64_bits v)
         then Inr (GetInt32Constant s0 (FastD2I E (float64_bits v)))
         else
           let (node_info, s1) = GetOrCreateInfoFor E s0 v in
           case alternative_int32 node_info of
             Some alt \<Rightarrow> Inr (alt, s1)
           | None \<Rightarrow>
               (case value_representation v of
                  kTagged \<Rightarrow> bind_result (BuildSmiUntag E s1 v) (\<lambda>r. Inr (set_int32 v r))
                | kUint32 \<Rightarrow>
                    if NodeTypeIsSmi E (info_type node_info)
                    then Inr (set_int32 v
                           (AddNewNode s1 (new_node 0 ''kTruncateUint32ToInt32'' kInt32 [node_id v])))
                    else Inr (set_int32 v
                           (AddNewNode s1 (new_node 0 ''kCheckedUint32ToInt32'' kInt32 [node_id v])))
                | kFloat64 \<Rightarrow>
                    Inr (set_int32 v
                      (AddNewNode s1
                         (new_node 0 ''kCheckedTruncateFloat64ToInt32'' kInt32 [node_id v])))
                | kHoleyFloat64 \<Rightarrow>
                    Inr (set_int32 v
                      (AddNewNode s1
                         (new_node 0 ''kCheckedTruncateFloat64ToInt32'' kInt32 [node_id v])))
                | kInt32 \<Rightarrow> Inl UNREACHABLE_hit
                | kWord64 \<Rightarrow> Inl UNREACHABLE_hit))"

text \<open>
  \<open>GetFloat64ForToNumber\<close> calls \<open>GetFloat64\<close> on the int32 value of a tagged value
  under the hint \<open>kAssumeSmi\<close>, and \<open>GetFloat64\<close> calls it back under the hint
  \<open>kDisallowToNumber\<close>: the recursion ends after this one step.
\<close>

function GetFloat64ForToNumber ::
  "Broker \<Rightarrow> GraphBuilder \<Rightarrow> ValueNode \<Rightarrow> ToNumberHint \<Rightarrow>
   failure + (ValueNode \<times> GraphBuilder)" where
  "GetFloat64ForToNumber E s v hint =
     (if value_representation v = kFloat64 then Inr (v, s)
      else if opcode v = ''kConstant'' \<and> IsHeapNumber E (constant_object v)
      then Inr (GetFloat64Constant s (heap_number_value E (constant_object v)))
      else if opcode v = ''kConstant'' \<and> IsOddball E (constant_object v)
      then Inl DCHECK_failed
      else if opcode v = ''kSmiConstant''
      then Inr (GetFloat64Constant s (double_of_int E (int_value v)))
      else if opcode v = ''kInt32Constant''
      then Inr (GetFloat64Constant s (double_of_int E (int_value v)))
      else if opcode v = ''kRootConstant'' \<and> hint \<noteq> kDisallowToNumber \<and>
              IsOddball E (root_object E (root_index v))
      then Inr (GetFloat64Constant s (to_number_raw E (root_object E (root_index v))))
      else if opcode v = ''kRootConstant'' \<and> IsHeapNumber E (root_object E (root_index v))
      then Inr (GetFloat64Constant s (heap_number_value E (root_object E (root_index v))))
      else
        let (node_info, s1) = GetOrCreateInfoFor E s v in
        case alternative_float64 node_info of
          Some alt \<Rightarrow> Inr (alt, s1)
        | None \<Rightarrow>
            (case value_representation v of
               kTagged \<Rightarrow>
                 (case hint of
                    kAssumeSmi \<Rightarrow>
                      (case GetInt32 E s1 v of
                         Inl e \<Rightarrow> Inl e
                       | Inr (int32_node, s2) \<Rightarrow>
                           GetFloat64ForToNumber E
                             (RecordUseReprHintIfPhi s2 int32_node kUseFloat64) int32_node
                             kDisallowToNumber)
                  | kDisallowToNumber \<Rightarrow>
                      bind_result (BuildNumberOrOddballToFloat64 E s1 v kOnlyNumber)
                        (\<lambda>r. Inr (set_float64 v r))
                  | kAssumeNumber \<Rightarrow>
                      bind_result (BuildNumberOrOddballToFloat64 E s1 v kOnlyNumber)
                        (\<lambda>r. Inr (set_float64 v r))
                  | kAssumeNumberOrOddball \<Rightarrow>
                      bind_result (BuildNumberOrOddballToFloat64 E s1 v kNumberOrOddball)
                        (\<lambda>(float64_node, s2).
                           if NodeTypeIsNumber E (info_type (current_info E s2 v))
                           then Inr (set_float64 v (float64_node, s2))
                           else Inr (float64_node, s2)))
             | kInt32 \<Rightarrow>
                 Inr (set_float64 v
                   (AddNewNode s1 (new_node 0 ''kChangeInt32ToFloat64'' kFloat64 [node_id v])))
             | kUint32 \<Rightarrow>
                 Inr (set_float64 v
                   (AddNewNode s1 (new_node 0 ''kChangeUint32ToFloat64'' kFloat64 [node_id v])))
             | kHoleyFloat64 \<Rightarrow>
                 (case hint of
                    kAssumeNumberOrOddball \<Rightarrow>
                      Inr (AddNewNode s1
                             (new_node 0 ''kHoleyFloat64ToMaybeNanFloat64'' kFloat64 [node_id v]))
                  | _ \<Rightarrow>
                      Inr (set_float64 v
                        (AddNewNode s1
                           (new_node 0 ''kCheckedHoleyFloat64ToFloat64'' kFloat64 [node_id v]))))
             | kFloat64 \<Rightarrow> Inl UNREACHABLE_hit
             | kWord64 \<Rightarrow> Inl UNREACHABLE_hit))"
  by pat_completeness auto
termination
  by (relation "measure (\<lambda>(E, s, v, hint). if hint = kAssumeSmi then 1 else 0)") auto

declare GetFloat64ForToNumber.simps [simp del]

definition GetFloat64 :: "Broker \<Rightarrow> GraphBuilder \<Rightarrow> ValueNode \<Rightarrow> failure + (ValueNode \<times> GraphBuilder)" where
  "GetFloat64 E s v =
     GetFloat64ForToNumber E (RecordUseReprHintIfPhi s v kUseFloat64) v kDisallowToNumber"


section \<open>Graph builder: the map check\<close>





text \<open>
  \<^verbatim>\<open>KnownMapsMerger\<close>. The intersect set is a list without repetition; a map that is
  inserted twice is kept once.
\<close>

record KnownMapsMerger =
  requested_maps :: "MapRef list"
  intersect_set :: "MapRef list"
  known_maps_are_subset_of_requested_maps :: bool
  existing_known_maps_found :: bool
  emit_check_with_migration :: bool
  merger_any_map_is_unstable :: bool
  node_type :: NodeType

definition new_KnownMapsMerger :: "Broker \<Rightarrow> MapRef list \<Rightarrow> KnownMapsMerger" where
  "new_KnownMapsMerger E maps =
     \<lparr>requested_maps = maps, intersect_set = [],
      known_maps_are_subset_of_requested_maps = True, existing_known_maps_found = True,
      emit_check_with_migration = False, merger_any_map_is_unstable = False,
      node_type = NodeType_minus_one E\<rparr>"

definition InsertMap :: "Broker \<Rightarrow> KnownMapsMerger \<Rightarrow> MapRef \<Rightarrow> KnownMapsMerger" where
  "InsertMap E m mp =
     (let m1 = (if is_migration_target mp then m\<lparr>emit_check_with_migration := True\<rparr> else m);
          new_type = StaticTypeForMap E mp;
          new_type1 = (if new_type = NodeType_kHeapNumber E
                       then IntersectType E new_type (NodeType_kSmi E) else new_type);
          m2 = m1\<lparr>node_type := IntersectType E (node_type m1) new_type1\<rparr>;
          m3 = (if \<not> is_stable mp then m2\<lparr>merger_any_map_is_unstable := True\<rparr> else m2)
      in m3\<lparr>intersect_set :=
              (if mp \<in> set (intersect_set m3) then intersect_set m3
               else intersect_set m3 @ [mp])\<rparr>)"

definition intersect_step :: "Broker \<Rightarrow> NodeType \<Rightarrow> MapRef \<Rightarrow> KnownMapsMerger \<Rightarrow> KnownMapsMerger" where
  "intersect_step E type possible_map m =
     (if possible_map \<in> set (requested_maps m)
      then (if IsInstanceOfNodeType E possible_map type then InsertMap E m possible_map else m)
      else m\<lparr>known_maps_are_subset_of_requested_maps := False\<rparr>)"







definition check_nodes :: "GraphBuilder \<Rightarrow> ValueNode list" where
  "check_nodes s =
     filter (\<lambda>n. opcode n = ''kCheckMaps'' \<or> opcode n = ''kCheckMapsWithMigration'')
       (graph_nodes s)"



section \<open>Graph builder: observations on the conversions\<close>

text \<open>
  Notions used to state what the conversions do: a use-representation hint is already
  recorded on a phi, a value has an entry among the known node aspects, and the constants
  that \<open>GetInt32\<close> and \<open>GetFloat64\<close> fold before they look at the entry of the value.
\<close>

definition hint_recorded :: "GraphBuilder \<Rightarrow> ValueNode \<Rightarrow> UseRepresentation \<Rightarrow> bool" where
  "hint_recorded s v h = (opcode v = ''kPhi'' \<longrightarrow> h \<in> set (use_repr_hints s (node_id v)))"

definition has_info :: "GraphBuilder \<Rightarrow> nat \<Rightarrow> bool" where
  "has_info s k = (known_node_aspects s k \<noteq> None)"

definition int32_folded :: "Broker \<Rightarrow> ValueNode \<Rightarrow> bool" where
  "int32_folded E v =
     (opcode v = ''kSmiConstant'' \<or>
      (opcode v = ''kFloat64Constant'' \<and> IsSmiDouble E (float64_bits v)))"

definition int32_folded_value :: "Broker \<Rightarrow> ValueNode \<Rightarrow> int" where
  "int32_folded_value E v =
     (if opcode v = ''kSmiConstant'' then int_value v else FastD2I E (float64_bits v))"

definition float64_folded :: "Broker \<Rightarrow> ValueNode \<Rightarrow> bool" where
  "float64_folded E v =
     ((opcode v = ''kConstant'' \<and> IsHeapNumber E (constant_object v)) \<or>
      opcode v = ''kSmiConstant'' \<or> opcode v = ''kInt32Constant'' \<or>
      (opcode v = ''kRootConstant'' \<and> IsHeapNumber E (root_object E (root_index v))))"

definition float64_folded_value :: "Broker \<Rightarrow> ValueNode \<Rightarrow> nat" where
  "float64_folded_value E v =
     (if opcode v = ''kConstant'' then heap_number_value E (constant_object v)
      else if opcode v = ''kRootConstant''
      then heap_number_value E (root_object E (root_index v))
      else double_of_int E (int_value v))"

definition oddball_constant :: "Broker \<Rightarrow> ValueNode \<Rightarrow> bool" where
  "oddball_constant E v =
     (opcode v = ''kConstant'' \<and> \<not> IsHeapNumber E (constant_object v) \<and>
      IsOddball E (constant_object v))"

section \<open>A broker, a graph and nodes to evaluate the builder on\<close>

text \<open>
  A small instance of the parameters: node types are numbers in a flat lattice, with 0
  the unknown type on top and 99 (the type \<^verbatim>\<open>-1\<close>) at the bottom; no object is a heap
  number or an oddball. The graph is empty and its next node identity is 10.
  \<open>uint32_node\<close> is a value in the uint32 representation and \<open>smi_constant\<close> the
  Smi constant 3.
\<close>

definition broker0 :: Broker where
  "broker0 =
     \<lparr>NodeTypeIs = (\<lambda>a b. b = 0 \<or> a = b \<or> a = 99),
      CombineType = (\<lambda>a b. if a = 0 then b else if b = 0 \<or> a = b then a else 99),
      IntersectType = (\<lambda>a b. if a = 99 then b else if b = 99 \<or> a = b then a else 0),
      NodeType_minus_one = 99, NodeType_kUnknown = 0, NodeType_kSmi = 1, NodeType_kNumber = 2,
      NodeType_kNumberOrOddball = 3, NodeType_kHeapNumber = 4, NodeType_kAnyHeapObject = 5,
      NodeType_kBoolean = 6, NodeType_kOddball = 7, NodeType_kString = 8,
      NodeType_kInternalizedString = 9, NodeType_kJSReceiver = 10, NodeType_kName = 11,
      NodeType_kCallable = 12,
      StaticTypeForMap = (\<lambda>m. 5), StaticTypeForConstant = (\<lambda>ob. 5),
      IsInstanceOfNodeType = (\<lambda>m t. t = 0 \<or> t = 5),
      object_map = (\<lambda>ob. \<lparr>map_id = ob, is_stable = True, is_migration_target = False\<rparr>),
      root_object = (\<lambda>r. 0), IsHeapNumber = (\<lambda>ob. False), IsOddball = (\<lambda>ob. False),
      heap_number_value = (\<lambda>ob. 0), to_number_raw = (\<lambda>ob. 0), IsSmiDouble = (\<lambda>d. False),
      FastD2I = (\<lambda>d. 0), double_of_int = (\<lambda>i. nat i)\<rparr>"

definition graph0 :: GraphBuilder where
  "graph0 =
     \<lparr>known_node_aspects = (\<lambda>k. None), any_map_for_any_node_is_unstable = False,
      graph_nodes = [], current_block_open = True, next_node_id = 10,
      int32_constants = (\<lambda>c. None), float64_constants = (\<lambda>c. None),
      use_repr_hints = (\<lambda>k. []), stable_map_dependencies = []\<rparr>"

definition uint32_node :: ValueNode where
  "uint32_node = new_node 1 ''kCheckedInt32ToUint32'' kUint32 [0]"

definition smi_constant :: ValueNode where
  "smi_constant = (new_node 2 ''kSmiConstant'' kTagged [])\<lparr>int_value := 3\<rparr>"

definition graph_with ::
  "ValueNode \<Rightarrow> (NodeInfo \<Rightarrow> NodeInfo) \<Rightarrow> GraphBuilder" where
  "graph_with c f =
     graph0\<lparr>known_node_aspects := (\<lambda>k. None)(1 \<mapsto> f (new_NodeInfo broker0)),
            graph_nodes := [c], next_node_id := 11\<rparr>"

definition tagged_of_uint32 :: ValueNode where
  "tagged_of_uint32 = new_node 10 ''kUint32ToNumber'' kTagged [1]"

definition int32_of_uint32 :: ValueNode where
  "int32_of_uint32 = new_node 10 ''kCheckedUint32ToInt32'' kInt32 [1]"

definition float64_of_uint32 :: ValueNode where
  "float64_of_uint32 = new_node 10 ''kChangeUint32ToFloat64'' kFloat64 [1]"

definition int32_constant_3 :: ValueNode where
  "int32_constant_3 = (new_node 10 ''kInt32Constant'' kInt32 [])\<lparr>int_value := 3\<rparr>"

definition graph_with_constant :: GraphBuilder where
  "graph_with_constant =
     graph0\<lparr>int32_constants := (\<lambda>c. None)(3 \<mapsto> int32_constant_3), next_node_id := 11\<rparr>"






section \<open>Free-list categories: proofs\<close>


lemma fold_max_ge: "x \<in> set xs \<Longrightarrow> x \<le> fold max xs (a::nat)"
proof -
  assume "x \<in> set xs"
  then have "x \<le> Max (set (a # xs))" by (intro Max_ge) auto
  then show ?thesis by (simp only: Max.set_eq_fold)
qed

lemma new_FreeListCategory_fresh: "new_FreeListCategory live \<notin> set live"
  using fold_max_ge[of "new_FreeListCategory live" live 0]
  by (auto simp: new_FreeListCategory_def)

lemma allocate_categories_loop_ok:
  "distinct is \<Longrightarrow> \<forall>i\<in>set is. 0 \<le> i \<and> i < int (length arr) \<and> arr ! nat i = None \<Longrightarrow>
   \<exists>arr' cs. allocate_categories_loop is arr live = Inr (arr', rev cs @ live) \<and>
      length arr' = length arr \<and> distinct cs \<and> set cs \<inter> set live = {} \<and>
      map (\<lambda>i. arr' ! nat i) is = map Some cs \<and>
      (\<forall>j. j \<notin> nat ` set is \<longrightarrow> arr' ! j = arr ! j)"
proof (induction "is" arbitrary: arr live)
  case Nil
  then show ?case by simp
next
  case (Cons i "is")
  let ?c = "new_FreeListCategory live"
  let ?arr = "arr[nat i := Some ?c]"
  have fresh: "?c \<notin> set live" by (rule new_FreeListCategory_fresh)
  have i: "0 \<le> i" "i < int (length arr)" "arr ! nat i = None"
    using Cons.prems(2) by auto
  have pre: "\<forall>j\<in>set is. 0 \<le> j \<and> j < int (length ?arr) \<and> ?arr ! nat j = None"
  proof
    fix j assume j: "j \<in> set is"
    then have "j \<noteq> i" using Cons.prems(1) by auto
    moreover have "0 \<le> j" "j < int (length arr)" "arr ! nat j = None"
      using Cons.prems(2) j by auto
    ultimately show "0 \<le> j \<and> j < int (length ?arr) \<and> ?arr ! nat j = None"
      using i by (auto simp: nth_list_update)
  qed
  from Cons.IH[OF _ pre, of "?c # live"] Cons.prems(1)
  obtain arr' cs where r: "allocate_categories_loop is ?arr (?c # live) = Inr (arr', rev cs @ ?c # live)"
    "length arr' = length ?arr" "distinct cs" "set cs \<inter> set (?c # live) = {}"
    "map (\<lambda>i. arr' ! nat i) is = map Some cs"
    "\<forall>j. j \<notin> nat ` set is \<longrightarrow> arr' ! j = ?arr ! j"
    by auto
  have ni: "nat i \<notin> nat ` set is"
  proof
    assume "nat i \<in> nat ` set is"
    then obtain j where j: "j \<in> set is" "nat j = nat i" by auto
    then have "0 \<le> j" using Cons.prems(2) by auto
    with j i have "j = i" by simp
    with j Cons.prems(1) show False by simp
  qed
  have at_i: "arr' ! nat i = Some ?c" using r(6) ni i by simp
  show ?case
    apply (rule exI[of _ arr'], rule exI[of _ "?c # cs"])
    using r i at_i fresh by (auto simp: Let_def)
qed

lemma release_categories_loop_ok:
  "distinct is \<Longrightarrow> \<forall>i\<in>set is. 0 \<le> i \<and> i < int (length arr) \<Longrightarrow>
   map (\<lambda>i. arr ! nat i) is = map Some cs \<Longrightarrow>
   \<exists>arr'. release_categories_loop is arr live = Inr (arr', fold removeAll cs live)"
proof (induction "is" arbitrary: arr live cs)
  case Nil
  then show ?case by simp
next
  case (Cons i "is")
  from Cons.prems(3) obtain c cs' where cs: "cs = c # cs'" "arr ! nat i = Some c"
    "map (\<lambda>i. arr ! nat i) is = map Some cs'" by (cases cs) auto
  have i: "0 \<le> i" "i < int (length arr)" using Cons.prems(2) by auto
  let ?arr = "arr[nat i := None]"
  have same: "map (\<lambda>j. ?arr ! nat j) is = map (\<lambda>j. arr ! nat j) is"
  proof (rule map_cong[OF refl])
    fix j assume j: "j \<in> set is"
    then have "j \<noteq> i" "0 \<le> j" using Cons.prems(1,2) by auto
    then show "?arr ! nat j = arr ! nat j" using i by (simp add: nth_list_update)
  qed
  have "\<exists>arr'. release_categories_loop is ?arr (removeAll c live) = Inr (arr', fold removeAll cs' (removeAll c live))"
    by (rule Cons.IH) (use Cons.prems same cs in auto)
  then show ?case using cs i by simp
qed

lemma fold_removeAll: "fold removeAll cs xs = filter (\<lambda>x. x \<notin> set cs) xs"
  by (induction cs arbitrary: xs) (auto simp: removeAll_filter_not_eq intro: filter_cong)

lemma fold_removeAll_fresh:
  "set cs \<inter> set live = {} \<Longrightarrow> fold removeAll cs (rev cs @ live) = live"
  by (auto simp: fold_removeAll filter_id_conv)


lemma allocate_categories_loop_populates:
  "allocate_categories_loop is arr live = Inr (arr', live') \<Longrightarrow>
   length arr' = length arr \<and> (\<forall>j. arr ! j \<noteq> None \<longrightarrow> arr' ! j \<noteq> None) \<and>
   list_all (\<lambda>i. 0 \<le> i \<and> i < int (length arr') \<and> arr' ! nat i \<noteq> None) is"
proof (induction "is" arbitrary: arr live)
  case Nil
  then show ?case by simp
next
  case (Cons i "is")
  let ?c = "new_FreeListCategory live"
  let ?arr = "arr[nat i := Some ?c]"
  from Cons.prems have i: "0 \<le> i" "i < int (length arr)" "arr ! nat i = None"
    and r: "allocate_categories_loop is ?arr (?c # live) = Inr (arr', live')"
    by (auto simp: Let_def split: if_splits)
  from Cons.IH[OF r] have ih: "length arr' = length ?arr"
    "\<forall>j. ?arr ! j \<noteq> None \<longrightarrow> arr' ! j \<noteq> None"
    "list_all (\<lambda>i. 0 \<le> i \<and> i < int (length arr') \<and> arr' ! nat i \<noteq> None) is"
    by auto
  have "?arr ! nat i \<noteq> None" using i by simp
  then have "arr' ! nat i \<noteq> None" using ih(2) by blast
  moreover have "\<forall>j. arr ! j \<noteq> None \<longrightarrow> arr' ! j \<noteq> None"
  proof (intro allI impI)
    fix j assume "arr ! j \<noteq> None"
    then have "?arr ! j \<noteq> None" using i by (cases "j = nat i") auto
    then show "arr' ! j \<noteq> None" using ih(2) by blast
  qed
  ultimately show ?case using ih i by simp
qed

lemma AllocateFreeListCategories_populated:
  "AllocateFreeListCategories p = Inr p' \<Longrightarrow> categories_populated p'"
  by (auto simp: AllocateFreeListCategories_def categories_populated_def
           split: if_splits sum.splits dest!: allocate_categories_loop_populates)

lemma ReleaseFreeListCategories_null:
  "ReleaseFreeListCategories p = Inr p' \<Longrightarrow> categories p' = None"
  by (auto simp: ReleaseFreeListCategories_def split: option.splits sum.splits)

lemma page_reachable_populated: "page_reachable p \<Longrightarrow> categories_populated p"
proof (induction rule: page_reachable.induct)
  case (fresh p)
  then show ?case by (simp add: categories_populated_def)
next
  case (allocate p p')
  then show ?case by (simp add: AllocateFreeListCategories_populated)
next
  case (release p p')
  then show ?case
    by (simp add: categories_populated_def ReleaseFreeListCategories_null)
qed

lemma allocate_then_release:
  assumes null: "categories p = None" and ok: "free_list_ok (free_list p)"
  shows "\<exists>p1 cs. AllocateFreeListCategories p = Inr p1 \<and> categories p1 \<noteq> None \<and>
           category_objects p1 = cs @ category_objects p \<and> distinct cs \<and>
           set cs \<inter> set (category_objects p) = {} \<and>
           int (length cs) = max 0 (last_category (free_list p) - kFirstCategory (free_list p) + 1) \<and>
           ReleaseFreeListCategories p1 = Inr p"
proof -
  let ?fl = "free_list p"
  let ?is = "[kFirstCategory ?fl .. last_category ?fl]"
  let ?arr = "replicate (nat (number_of_categories ?fl)) (None :: nat option)"
  have rng: "\<forall>i\<in>set ?is. 0 \<le> i \<and> i < int (length ?arr) \<and> ?arr ! nat i = None"
    using ok by (auto simp: free_list_ok_def)
  from allocate_categories_loop_ok[OF distinct_upto rng, of "category_objects p"]
  obtain arr' cs where a:
    "allocate_categories_loop ?is ?arr (category_objects p) = Inr (arr', rev cs @ category_objects p)"
    "length arr' = length ?arr" "distinct cs" "set cs \<inter> set (category_objects p) = {}"
    "map (\<lambda>i. arr' ! nat i) ?is = map Some cs"
    by blast
  let ?p1 = "p\<lparr>categories := Some arr', category_objects := rev cs @ category_objects p\<rparr>"
  have alloc: "AllocateFreeListCategories p = Inr ?p1"
    using null ok a(1) by (simp add: AllocateFreeListCategories_def free_list_ok_def)
  have rng': "\<forall>i\<in>set ?is. 0 \<le> i \<and> i < int (length arr')"
    using rng a(2) by simp
  from release_categories_loop_ok[OF distinct_upto rng' a(5), of "rev cs @ category_objects p"]
  obtain arr'' where r:
    "release_categories_loop ?is arr' (rev cs @ category_objects p) =
       Inr (arr'', fold removeAll cs (rev cs @ category_objects p))"
    by blast
  have rel: "ReleaseFreeListCategories ?p1 = Inr p"
    using r a(4) null by (simp add: ReleaseFreeListCategories_def fold_removeAll_fresh)
  have len: "int (length cs) = max 0 (last_category ?fl - kFirstCategory ?fl + 1)"
  proof -
    have "length (map Some cs) = length ?is" using a(5) by (metis length_map)
    then show ?thesis by simp
  qed
  show ?thesis
    apply (rule exI[of _ ?p1], rule exI[of _ "rev cs"])
    using alloc rel a(3,4) len by simp
qed

text \<open>
  Claim C8. On every page the two operations produce, the category array is absent or
  populated on the whole range from \<open>kFirstCategory\<close> to \<open>last_category\<close>. On a
  page without the array, \<open>AllocateFreeListCategories\<close> returns, allocates one new
  category object per index of the range (\<open>last_category - kFirstCategory + 1\<close> of
  them, all distinct and none of them an object that existed before), and
  \<open>ReleaseFreeListCategories\<close> on its result gives back the page it started from: the
  array is null again and exactly the objects that were live before are live.
\<close>

theorem free_list_categories_all_or_nothing:
  "(page_reachable p \<longrightarrow> categories_populated p) \<and>
   (categories p = None \<and> free_list_ok (free_list p) \<longrightarrow>
     (\<exists>p1 cs. AllocateFreeListCategories p = Inr p1 \<and> categories p1 \<noteq> None \<and>
        categories_populated p1 \<and>
        category_objects p1 = cs @ category_objects p \<and> distinct cs \<and>
        set cs \<inter> set (category_objects p) = {} \<and>
        int (length cs) = max 0 (last_category (free_list p) - kFirstCategory (free_list p) + 1) \<and>
        ReleaseFreeListCategories p1 = Inr p))"
proof (intro conjI impI)
  assume "page_reachable p"
  then show "categories_populated p" by (rule page_reachable_populated)
next
  assume h: "categories p = None \<and> free_list_ok (free_list p)"
  then obtain p1 cs where r: "AllocateFreeListCategories p = Inr p1" "categories p1 \<noteq> None"
    "category_objects p1 = cs @ category_objects p" "distinct cs"
    "set cs \<inter> set (category_objects p) = {}"
    "int (length cs) = max 0 (last_category (free_list p) - kFirstCategory (free_list p) + 1)"
    "ReleaseFreeListCategories p1 = Inr p"
    using allocate_then_release by blast
  moreover have "categories_populated p1"
    using r(1) by (rule AllocateFreeListCategories_populated)
  ultimately show "\<exists>p1 cs. AllocateFreeListCategories p = Inr p1 \<and> categories p1 \<noteq> None \<and>
        categories_populated p1 \<and>
        category_objects p1 = cs @ category_objects p \<and> distinct cs \<and>
        set cs \<inter> set (category_objects p) = {} \<and>
        int (length cs) = max 0 (last_category (free_list p) - kFirstCategory (free_list p) + 1) \<and>
        ReleaseFreeListCategories p1 = Inr p"
    by blast
qed

lemma page3_alloc: "AllocateFreeListCategories page3 =
   Inr (page3\<lparr>categories := Some [Some 1, Some 2, Some 3], category_objects := [3, 2, 1]\<rparr>)"
  by (simp add: AllocateFreeListCategories_def page3_def upto.simps new_FreeListCategory_def Let_def
        eval_nat_numeral)

theorem free_list_categories_witness:
  "page_reachable page3 \<and> categories page3 = None \<and> free_list_ok (free_list page3) \<and>
   categories_populated page3 \<and>
   AllocateFreeListCategories page3 =
     Inr (page3\<lparr>categories := Some [Some 1, Some 2, Some 3], category_objects := [3, 2, 1]\<rparr>) \<and>
   ReleaseFreeListCategories
     (page3\<lparr>categories := Some [Some 1, Some 2, Some 3], category_objects := [3, 2, 1]\<rparr>) = Inr page3"
proof -
  have n: "categories page3 = None" by (simp add: page3_def)
  have ok: "free_list_ok (free_list page3)" by (simp add: page3_def free_list_ok_def)
  have re: "page_reachable page3" using n by (rule page_reachable.fresh)
  from free_list_categories_all_or_nothing[of page3] n ok re
  show ?thesis using page3_alloc by auto
qed

section \<open>Remembered-set merge: proofs\<close>


lemma fold_RememberedSet_Insert:
  "slot_set_OLD_TO_NEW (fold (\<lambda>a q. RememberedSet_Insert q a) xs p) =
     fold SlotSet_Insert xs (slot_set_OLD_TO_NEW p)"
  "sweeping_slot_set (fold (\<lambda>a q. RememberedSet_Insert q a) xs p) = sweeping_slot_set p"
  by (induction xs arbitrary: p) (auto simp: RememberedSet_Insert_def)

lemma fold_RememberedSetSweeping_Insert:
  "sweeping_slot_set (fold (\<lambda>a q. RememberedSetSweeping_Insert q a) xs p) =
     fold SlotSet_Insert xs (sweeping_slot_set p)"
  "slot_set_OLD_TO_NEW (fold (\<lambda>a q. RememberedSetSweeping_Insert q a) xs p) =
     slot_set_OLD_TO_NEW p"
  by (induction xs arbitrary: p) (auto simp: RememberedSetSweeping_Insert_def)

lemma slots_of_Insert: "slots_of (SlotSet_Insert a s) = insert a (slots_of s)"
  by (auto simp: slots_of_def SlotSet_Insert_def split: option.splits)

lemma distinct_Insert: "slot_set_distinct s \<Longrightarrow> slot_set_distinct (SlotSet_Insert a s)"
  by (auto simp: slot_set_distinct_def SlotSet_Insert_def split: option.splits)

lemma slots_of_fold: "slots_of (fold SlotSet_Insert xs s) = set xs \<union> slots_of s"
  by (induction xs arbitrary: s) (auto simp: slots_of_Insert)

lemma distinct_fold: "slot_set_distinct s \<Longrightarrow> slot_set_distinct (fold SlotSet_Insert xs s)"
  by (induction xs arbitrary: s) (auto simp: distinct_Insert)

lemma fold_Insert_None: "fold SlotSet_Insert xs s = None \<longleftrightarrow> xs = [] \<and> s = None"
  by (induction xs arbitrary: s) (auto simp: SlotSet_Insert_def)

text \<open>
  Claim C2. Take a page with no sweeping slot set. After any insertions into the
  old-to-new set, \<open>MoveOldToNewRememberedSetForSweeping\<close>, any further insertions and
  \<open>MergeOldToNewRememberedSets\<close>, the calls return, the live old-to-new set holds
  exactly the slots it held at the start together with the slots inserted before and
  during the sweep, none of them twice, and the sweeping slot set is null again.
\<close>

theorem merge_keeps_every_slot:
  assumes "sweeping_slot_set p = None" and "slot_set_distinct (slot_set_OLD_TO_NEW p)"
  shows "\<exists>p'. sweep_with_insertions p before during = Inr p' \<and>
           slots_of (slot_set_OLD_TO_NEW p') =
             slots_of (slot_set_OLD_TO_NEW p) \<union> set before \<union> set during \<and>
           slot_set_distinct (slot_set_OLD_TO_NEW p') \<and>
           sweeping_slot_set p' = None"
proof -
  let ?p1 = "fold (\<lambda>a q. RememberedSet_Insert q a) before p"
  let ?s1 = "fold SlotSet_Insert before (slot_set_OLD_TO_NEW p)"
  have s1: "slot_set_OLD_TO_NEW ?p1 = ?s1" "sweeping_slot_set ?p1 = None"
    using assms(1) by (auto simp: fold_RememberedSet_Insert)
  let ?p2 = "?p1\<lparr>sweeping_slot_set := ?s1, slot_set_OLD_TO_NEW := None\<rparr>"
  have mv: "MoveOldToNewRememberedSetForSweeping ?p1 = Inr ?p2"
    using s1 by (simp add: MoveOldToNewRememberedSetForSweeping_def)
  let ?p3 = "fold (\<lambda>a q. RememberedSet_Insert q a) during ?p2"
  let ?s3 = "fold SlotSet_Insert during None"
  have s3: "slot_set_OLD_TO_NEW ?p3 = ?s3" "sweeping_slot_set ?p3 = ?s1"
    by (auto simp: fold_RememberedSet_Insert)
  have d1: "slot_set_distinct ?s1" using assms(2) by (rule distinct_fold)
  have d3: "slot_set_distinct ?s3" by (rule distinct_fold) (simp add: slot_set_distinct_def)
  have "\<exists>p'. MergeOldToNewRememberedSets ?p3 = Inr p' \<and>
           slots_of (slot_set_OLD_TO_NEW p') = slots_of ?s1 \<union> slots_of ?s3 \<and>
           slot_set_distinct (slot_set_OLD_TO_NEW p') \<and> sweeping_slot_set p' = None"
  proof (cases "?s1")
    case None
    then show ?thesis using s3 d3
      by (simp add: MergeOldToNewRememberedSets_def slots_of_def)
  next
    case (Some sw)
    show ?thesis
    proof (cases "?s3")
      case None
      then show ?thesis using s3 d1 Some
        by (simp add: MergeOldToNewRememberedSets_def slots_of_def Let_def)
    next
      case (Some live)
      have "slots_of ?s3 = set live" using Some by (simp add: slots_of_def)
      then have "slots_of (fold SlotSet_Insert live ?s1) = slots_of ?s1 \<union> slots_of ?s3"
        by (simp only: slots_of_fold Un_commute)
      moreover have "slot_set_distinct (fold SlotSet_Insert live ?s1)"
        using d1 by (rule distinct_fold)
      ultimately show ?thesis using s3 Some \<open>?s1 = Some sw\<close>
        by (simp add: MergeOldToNewRememberedSets_def Let_def ReleaseSlotSet_def
              fold_RememberedSetSweeping_Insert)
    qed
  qed
  then obtain p' where m: "MergeOldToNewRememberedSets ?p3 = Inr p'"
    "slots_of (slot_set_OLD_TO_NEW p') = slots_of ?s1 \<union> slots_of ?s3"
    "slot_set_distinct (slot_set_OLD_TO_NEW p')" "sweeping_slot_set p' = None"
    by blast
  have "slots_of ?s3 = set during" by (simp add: slots_of_fold) (simp add: slots_of_def)
  then have "slots_of (slot_set_OLD_TO_NEW p') =
      slots_of (slot_set_OLD_TO_NEW p) \<union> set before \<union> set during"
    using m(2) by (simp add: slots_of_fold Un_commute)
  moreover have "sweep_with_insertions p before during = Inr p'"
    using mv m(1) by (simp add: sweep_with_insertions_def)
  ultimately show ?thesis using m(3,4) by blast
qed

theorem merge_keeps_every_slot_witness:
  "sweeping_slot_set page3 = None \<and> slot_set_distinct (slot_set_OLD_TO_NEW page3) \<and>
   (\<exists>p'. sweep_with_insertions page3 [8, 16, 8] [16, 24] = Inr p' \<and>
      slots_of (slot_set_OLD_TO_NEW p') = {8, 16, 24} \<and>
      slot_set_distinct (slot_set_OLD_TO_NEW p') \<and> sweeping_slot_set p' = None)"
proof -
  have a: "sweeping_slot_set page3 = None" by (simp add: page3_def)
  have b: "slot_set_distinct (slot_set_OLD_TO_NEW page3)"
    by (simp add: page3_def slot_set_distinct_def)
  have c: "slots_of (slot_set_OLD_TO_NEW page3) = {}" by (simp add: page3_def slots_of_def)
  from merge_keeps_every_slot[OF a b, of "[8, 16, 8]" "[16, 24]"] c
  show ?thesis using a b by auto
qed

section \<open>Linear allocation area: proofs\<close>



lemma static_cast_int_small: "n < 2 ^ 31 \<Longrightarrow> static_cast_int n = int n"
  by (simp add: static_cast_int_def Let_def)

lemma rounded_step_eq:
  assumes "32 \<le> kSystemPointerBits a" "n < 2 ^ 31"
  shows "size_t_of_int a (RoundSizeDownToObjectAlignment a (static_cast_int n)) =
         round_down_to_object_alignment a n"
proof -
  let ?k = "kObjectAlignmentBits a"
  have le: "n - n mod 2 ^ ?k \<le> n" by simp
  have "(2::nat) ^ 31 \<le> 2 ^ kSystemPointerBits a"
    using assms(1) by (intro power_increasing) auto
  then have lt: "n - n mod 2 ^ ?k < address_modulus a"
    using assms(2) le by (simp add: address_modulus_def)
  have "RoundSizeDownToObjectAlignment a (static_cast_int n) = int (n - n mod 2 ^ ?k)"
    using assms(2) by (simp add: RoundSizeDownToObjectAlignment_def static_cast_int_small
        of_nat_diff zmod_int)
  then show ?thesis
    using lt by (simp add: size_t_of_int_def round_down_to_object_alignment_def
        flip: zmod_int)
qed

lemma ComputeLimit_observed:
  assumes d: "\<not> (end' + address_modulus a - start) mod address_modulus a < min_size"
    and ni: "\<not> inline_allocation_disabled s"
    and ob: "SupportsAllocationObserver s \<and> IsActive (allocation_counter s)"
    and st: "info_start (allocation_info s) = info_top (allocation_info s)"
    and nz: "NextBytes (allocation_counter s) \<noteq> 0"
  shows "ComputeLimit a s start end' min_size =
     Inr (min ((start + max min_size
                 (size_t_of_int a (RoundSizeDownToObjectAlignment a
                    (static_cast_int (NextBytes (allocation_counter s) - 1))))) mod 2 ^ 64)
              end' mod address_modulus a)"
  unfolding ComputeLimit_def Let_def using d ni ob st nz by (simp only: if_True if_False simp_thms)

lemma ComputeLimit_eq_spec:
  assumes "ComputeLimit_in_range a s start end' min_size"
  shows "ComputeLimit a s start end' min_size = Inr (spec_ComputeLimit a s start end' min_size)"
proof -
  let ?M = "address_modulus a"
  from assms have w: "32 \<le> kSystemPointerBits a" "kSystemPointerBits a \<le> 64"
    and fit: "start + min_size \<le> end'" and e: "end' < ?M"
    by (auto simp: ComputeLimit_in_range_def)
  have M64: "?M \<le> 2 ^ 64"
    unfolding address_modulus_def using w(2) by (intro power_increasing) auto
  have diff: "(end' + ?M - start) mod ?M = end' - start"
  proof -
    have "end' + ?M - start = (end' - start) + ?M" using fit by linarith
    moreover have "end' - start < ?M" using e by linarith
    ultimately show ?thesis by (simp only: mod_add_self2 mod_less)
  qed
  have d: "\<not> (end' + ?M - start) mod ?M < min_size" unfolding diff using fit by linarith
  show ?thesis
  proof (cases "inline_allocation_disabled s")
    case True
    have "start + min_size < ?M" using fit e by linarith
    then have "(start + min_size) mod ?M = start + min_size" by (rule mod_less)
    then show ?thesis using True d by (simp add: ComputeLimit_def spec_ComputeLimit_def)
  next
    case False
    show ?thesis
    proof (cases "SupportsAllocationObserver s \<and> IsActive (allocation_counter s)")
      case False
      then show ?thesis using \<open>\<not> inline_allocation_disabled s\<close> d
        by (auto simp: ComputeLimit_def spec_ComputeLimit_def)
    next
      case True
      let ?step = "NextBytes (allocation_counter s)"
      let ?rd = "round_down_to_object_alignment a (?step - 1)"
      from assms True \<open>\<not> inline_allocation_disabled s\<close>
      have o: "info_start (allocation_info s) = info_top (allocation_info s)"
        "0 < ?step" "?step \<le> 2 ^ 31" "start + ?rd < 2 ^ 64"
        by (auto simp: ComputeLimit_in_range_def)
      have "?step - 1 < 2 ^ 31" using o(2,3) by linarith
      then have r: "size_t_of_int a (RoundSizeDownToObjectAlignment a (static_cast_int (?step - 1))) = ?rd"
        using w(1) by (intro rounded_step_eq)
      have "start + min_size < 2 ^ 64" using fit e M64 by linarith
      then have "start + max min_size ?rd < 2 ^ 64"
        using o(4) by (cases "min_size \<le> ?rd") (simp_all only: max_absorb2 max_absorb1 linorder_not_le[THEN iffD1, THEN less_imp_le])
      then have se: "(start + max min_size ?rd) mod 2 ^ 64 = start + max min_size ?rd"
        by (rule mod_less)
      have "min (start + max min_size ?rd) end' \<le> end'" by (rule min.cobounded2)
      then have "min (start + max min_size ?rd) end' < ?M" using e by linarith
      then have ne: "min (start + max min_size ?rd) end' mod ?M = min (start + max min_size ?rd) end'"
        by (rule mod_less)
      have nz: "?step \<noteq> 0" using o(2) by linarith
      have "ComputeLimit a s start end' min_size = Inr (min (start + max min_size ?rd) end')"
        unfolding ComputeLimit_observed[OF d False True o(1) nz] r se ne ..
      then show ?thesis
        using True False by (simp add: spec_ComputeLimit_def)
    qed
  qed
qed


lemma round_down_mono:
  "m \<le> n \<Longrightarrow> round_down_to_object_alignment a m \<le> round_down_to_object_alignment a n"
proof -
  assume mn: "m \<le> n"
  let ?A = "(2::nat) ^ kObjectAlignmentBits a"
  have m: "round_down_to_object_alignment a m = ?A * (m div ?A)"
    and n: "round_down_to_object_alignment a n = ?A * (n div ?A)"
    by (simp_all add: round_down_to_object_alignment_def minus_mod_eq_mult_div)
  have "m div ?A \<le> n div ?A" using mn by (rule div_le_mono)
  then show ?thesis unfolding m n by (rule mult_le_mono2)
qed

text \<open>
  For a call in range (\<open>ComputeLimit_in_range\<close>: the request fits the region, and on
  the observer path the step is positive, at most \<open>2 ^ 31\<close>, and its rounding added to
  the start stays below \<open>2 ^ 64\<close>), \<open>ComputeLimit\<close> returns the limit of the spec:
  \<open>start + min_size\<close> when inline allocation is disabled; otherwise, when observers are
  supported and active, the minimum of \<open>end\<close> and \<open>start\<close> plus the larger of
  \<open>min_size\<close> and the step minus one rounded down to the object alignment; otherwise
  \<open>end\<close>.
\<close>

theorem ComputeLimit_refines_spec:
  "ComputeLimit_in_range a s start end' min_size \<Longrightarrow>
   ComputeLimit a s start end' min_size = Inr (spec_ComputeLimit a s start end' min_size)"
  by (rule ComputeLimit_eq_spec)

lemma observed_in_range:
  "ComputeLimit_in_range arch64 (observed_space 4097) 4096 16384 64"
  by (simp add: ComputeLimit_in_range_def arch64_def observed_space_def address_modulus_def
        round_down_to_object_alignment_def)

theorem ComputeLimit_refines_spec_witness:
  "ComputeLimit_in_range arch64 (observed_space 4097) 4096 16384 64 \<and>
   ComputeLimit arch64 (observed_space 4097) 4096 16384 64 = Inr 8192"
proof -
  have "spec_ComputeLimit arch64 (observed_space 4097) 4096 16384 64 = 8192"
    by (simp add: spec_ComputeLimit_def arch64_def observed_space_def
          round_down_to_object_alignment_def)
  then show ?thesis
    using ComputeLimit_refines_spec[OF observed_in_range] observed_in_range by simp
qed

text \<open>
  Claim C6. With observers supported and active, the limit is to be the minimum of
  \<open>end\<close> and \<open>start\<close> plus the larger of \<open>min_size\<close> and the step minus one rounded
  down to the object alignment. The code misses it on a 64-bit build when the step minus
  one does not fit a non-negative \<^verbatim>\<open>int\<close>: the cast makes it negative, the conversion to
  \<^verbatim>\<open>size_t\<close> makes it huge, and the sum in \<^verbatim>\<open>uint64_t\<close> wraps around. For the region
  from \<open>2 ^ 32\<close> to \<open>2 ^ 32 + 4096\<close>, a request of 16 bytes and a step of
  \<open>2 ^ 31 + 1\<close> the code returns \<open>2 ^ 31\<close>, below the start, where the formula gives
  the end of the region.
\<close>

theorem ComputeLimit_large_step_wraps:
  "ComputeLimit arch64 (observed_space (2 ^ 31 + 1)) (2 ^ 32) (2 ^ 32 + 4096) 16 = Inr (2 ^ 31) \<and>
   spec_ComputeLimit arch64 (observed_space (2 ^ 31 + 1)) (2 ^ 32) (2 ^ 32 + 4096) 16
     = 2 ^ 32 + 4096"
  by (simp add: ComputeLimit_def spec_ComputeLimit_def arch64_def observed_space_def
        address_modulus_def static_cast_int_def RoundSizeDownToObjectAlignment_def
        size_t_of_int_def round_down_to_object_alignment_def Let_def)

text \<open>
  Claim C7, amended. For a call in range, \<open>ComputeLimit\<close> returns a limit between
  \<open>start + min_size\<close> and \<open>end\<close>; and on the observer path, when the request is not
  larger than the step rounded down to the object alignment, the limit does not exceed
  \<open>start\<close> plus that rounded step.
\<close>

theorem ComputeLimit_bounds:
  assumes "ComputeLimit_in_range a s start end' min_size"
  shows "\<exists>limit. ComputeLimit a s start end' min_size = Inr limit \<and>
           start + min_size \<le> limit \<and> limit \<le> end' \<and>
           (\<not> inline_allocation_disabled s \<and> SupportsAllocationObserver s \<and>
            IsActive (allocation_counter s) \<and>
            min_size \<le> round_down_to_object_alignment a (NextBytes (allocation_counter s))
            \<longrightarrow> limit \<le> start +
                  round_down_to_object_alignment a (NextBytes (allocation_counter s)))"
proof -
  let ?l = "spec_ComputeLimit a s start end' min_size"
  let ?step = "NextBytes (allocation_counter s)"
  from assms have fit: "start + min_size \<le> end'"
    by (simp add: ComputeLimit_in_range_def)
  have eq: "ComputeLimit a s start end' min_size = Inr ?l"
    using assms by (rule ComputeLimit_eq_spec)
  have lo: "start + min_size \<le> ?l" using fit by (simp add: spec_ComputeLimit_def)
  have hi: "?l \<le> end'" using fit by (simp add: spec_ComputeLimit_def)
  have up: "?l \<le> start + round_down_to_object_alignment a ?step"
    if o: "\<not> inline_allocation_disabled s" "SupportsAllocationObserver s"
      "IsActive (allocation_counter s)"
      and m: "min_size \<le> round_down_to_object_alignment a ?step"
  proof -
    have "round_down_to_object_alignment a (?step - 1) \<le> round_down_to_object_alignment a ?step"
      by (rule round_down_mono) simp
    then have "max min_size (round_down_to_object_alignment a (?step - 1))
        \<le> round_down_to_object_alignment a ?step" using m by simp
    then show ?thesis using o by (simp add: spec_ComputeLimit_def min_le_iff_disj)
  qed
  show ?thesis using eq lo hi up by blast
qed

theorem ComputeLimit_bounds_witness:
  "ComputeLimit_in_range arch64 (observed_space 4097) 4096 16384 64 \<and>
   (64::nat) \<le> round_down_to_object_alignment arch64 4097 \<and>
   (\<exists>limit. ComputeLimit arch64 (observed_space 4097) 4096 16384 64 = Inr limit \<and>
      4096 + 64 \<le> limit \<and> limit \<le> 16384 \<and> limit \<le> 4096 + 4096)"
proof -
  have r: "round_down_to_object_alignment arch64 4097 = 4096"
    by (simp add: round_down_to_object_alignment_def arch64_def)
  have o: "\<not> inline_allocation_disabled (observed_space 4097)"
    "SupportsAllocationObserver (observed_space 4097)"
    "IsActive (allocation_counter (observed_space 4097))"
    "NextBytes (allocation_counter (observed_space 4097)) = 4097"
    by (simp_all add: observed_space_def)
  from ComputeLimit_bounds[OF observed_in_range] r o
  show ?thesis using observed_in_range by auto
qed

text \<open>
  The claim as worded fails twice. The bounds fail when the sum wraps around (here the
  region ends just below \<open>2 ^ 64\<close>); and with observers active the limit exceeds the
  start plus the step whenever the request itself is larger than the step.
\<close>

theorem ComputeLimit_bounds_counterexample:
  "ComputeLimit arch64 (observed_space 8193) (2 ^ 64 - 4096) (2 ^ 64 - 8) 8 = Inr 4096 \<and>
   ComputeLimit arch64 (observed_space 16) 4096 8192 64 = Inr 4160 \<and>
   \<not> (4160 \<le> 4096 + round_down_to_object_alignment arch64 16)"
  by (simp add: ComputeLimit_def arch64_def observed_space_def
        address_modulus_def static_cast_int_def RoundSizeDownToObjectAlignment_def
        size_t_of_int_def round_down_to_object_alignment_def Let_def)


text \<open>
  Claim C9, amended. \<open>InvokeAllocationObservers\<close> asserts that the object size is at
  most the aligned size, that the aligned size is at most the allocation size, and that
  at least one of the two equalities holds. A call that returns satisfies all three, and
  a call where both equalities fail stops at the assertion. Sizes that satisfy the three
  conditions, both equalities holding included, pass the assertions on the sizes: the
  call returns the space as it is when observers are not supported or not active, and
  also when the allocation stays below the next step; and it returns the space with the
  filler object and the stepped counter when the allocation reaches the next step with
  the object at the start of the area. The only other conditions are the two assertions
  on the linear area, which do not read the relation between the sizes.
\<close>

theorem InvokeAllocationObservers_asserts_sizes:
  "(InvokeAllocationObservers a invoke s soon_object size_in_bytes aligned_size_in_bytes
      allocation_size = Inr s' \<longrightarrow>
    asserted_sizes size_in_bytes aligned_size_in_bytes allocation_size) \<and>
   (size_in_bytes \<noteq> aligned_size_in_bytes \<and> aligned_size_in_bytes \<noteq> allocation_size \<longrightarrow>
    InvokeAllocationObservers a invoke s soon_object size_in_bytes aligned_size_in_bytes
      allocation_size = Inl DCHECK_failed) \<and>
   (asserted_sizes size_in_bytes aligned_size_in_bytes allocation_size \<and>
    (\<not> SupportsAllocationObserver s \<or> \<not> IsActive (allocation_counter s)) \<longrightarrow>
    InvokeAllocationObservers a invoke s soon_object size_in_bytes aligned_size_in_bytes
      allocation_size = Inr s) \<and>
   (asserted_sizes size_in_bytes aligned_size_in_bytes allocation_size \<and>
    SupportsAllocationObserver s \<and> IsActive (allocation_counter s) \<and>
    allocation_size < NextBytes (allocation_counter s) \<and>
    (info_limit (allocation_info s) + address_modulus a - info_start (allocation_info s))
       mod address_modulus a < NextBytes (allocation_counter s) \<longrightarrow>
    InvokeAllocationObservers a invoke s soon_object size_in_bytes aligned_size_in_bytes
      allocation_size = Inr s) \<and>
   (asserted_sizes size_in_bytes aligned_size_in_bytes allocation_size \<and>
    SupportsAllocationObserver s \<and> IsActive (allocation_counter s) \<and>
    NextBytes (allocation_counter s) \<le> allocation_size \<and>
    soon_object = (info_start (allocation_info s) + aligned_size_in_bytes - size_in_bytes)
                    mod address_modulus a \<and>
    (info_limit (allocation_info s) + address_modulus a - info_start (allocation_info s))
       mod address_modulus a
      < NextBytes (invoke (allocation_counter s) soon_object size_in_bytes allocation_size)
    \<longrightarrow>
    InvokeAllocationObservers a invoke s soon_object size_in_bytes aligned_size_in_bytes
      allocation_size =
      Inr (s\<lparr>fillers := (soon_object, static_cast_int size_in_bytes) # fillers s,
             allocation_counter :=
               invoke (allocation_counter s) soon_object size_in_bytes allocation_size\<rparr>))"
proof -
  let ?call = "InvokeAllocationObservers a invoke s soon_object size_in_bytes
      aligned_size_in_bytes allocation_size"
  have c1: "?call = Inr s' \<longrightarrow>
      asserted_sizes size_in_bytes aligned_size_in_bytes allocation_size"
    unfolding InvokeAllocationObservers_def asserted_sizes_def
    by (cases "size_in_bytes \<le> aligned_size_in_bytes";
        cases "aligned_size_in_bytes \<le> allocation_size";
        cases "size_in_bytes = aligned_size_in_bytes \<or> aligned_size_in_bytes = allocation_size")
       simp_all
  have c2: "size_in_bytes \<noteq> aligned_size_in_bytes \<and> aligned_size_in_bytes \<noteq> allocation_size
      \<longrightarrow> ?call = Inl DCHECK_failed"
    unfolding InvokeAllocationObservers_def by simp
  have c3: "asserted_sizes size_in_bytes aligned_size_in_bytes allocation_size \<and>
      (\<not> SupportsAllocationObserver s \<or> \<not> IsActive (allocation_counter s)) \<longrightarrow>
      ?call = Inr s"
    unfolding InvokeAllocationObservers_def asserted_sizes_def by simp
  have c4: "asserted_sizes size_in_bytes aligned_size_in_bytes allocation_size \<and>
      SupportsAllocationObserver s \<and> IsActive (allocation_counter s) \<and>
      allocation_size < NextBytes (allocation_counter s) \<and>
      (info_limit (allocation_info s) + address_modulus a - info_start (allocation_info s))
         mod address_modulus a < NextBytes (allocation_counter s) \<longrightarrow>
      ?call = Inr s"
    unfolding InvokeAllocationObservers_def asserted_sizes_def by (simp add: Let_def)
  have c5: "asserted_sizes size_in_bytes aligned_size_in_bytes allocation_size \<and>
      SupportsAllocationObserver s \<and> IsActive (allocation_counter s) \<and>
      NextBytes (allocation_counter s) \<le> allocation_size \<and>
      soon_object = (info_start (allocation_info s) + aligned_size_in_bytes - size_in_bytes)
                      mod address_modulus a \<and>
      (info_limit (allocation_info s) + address_modulus a - info_start (allocation_info s))
         mod address_modulus a
        < NextBytes (invoke (allocation_counter s) soon_object size_in_bytes allocation_size)
      \<longrightarrow>
      ?call =
        Inr (s\<lparr>fillers := (soon_object, static_cast_int size_in_bytes) # fillers s,
               allocation_counter :=
                 invoke (allocation_counter s) soon_object size_in_bytes allocation_size\<rparr>)"
    unfolding InvokeAllocationObservers_def asserted_sizes_def by (simp add: Let_def)
  from c1 c2 c3 c4 c5 show ?thesis by (intro conjI)
qed

theorem InvokeAllocationObservers_asserts_sizes_witness:
  "InvokeAllocationObservers arch64 keep_counter unobserved_space 4104 16 24 24
     = Inr unobserved_space \<and>
   asserted_sizes 16 24 24 \<and>
   (16::nat) \<noteq> 24 \<and> (24::nat) \<noteq> 32 \<and>
   InvokeAllocationObservers arch64 keep_counter unobserved_space 4104 16 24 32
     = Inl DCHECK_failed \<and>
   asserted_sizes 16 16 16 \<and>
   InvokeAllocationObservers arch64 keep_counter unobserved_space 4096 16 16 16
     = Inr unobserved_space \<and>
   asserted_sizes 16 16 24 \<and>
   InvokeAllocationObservers arch64 keep_counter unobserved_space 4096 16 16 24
     = Inr unobserved_space \<and>
   InvokeAllocationObservers arch64 keep_counter (observed_space 64) 4096 16 16 16
     = Inr (observed_space 64) \<and>
   InvokeAllocationObservers arch64 keep_counter (observed_space 16) 4096 16 16 16
     = Inr ((observed_space 16)\<lparr>fillers := [(4096, 16)]\<rparr>)"
proof -
  have sz: "asserted_sizes 16 24 24" "asserted_sizes 16 16 16" "asserted_sizes 16 16 24"
    by (simp_all add: asserted_sizes_def)
  have u: "\<not> SupportsAllocationObserver unobserved_space"
    by (simp add: unobserved_space_def)
  have o: "SupportsAllocationObserver (observed_space n)"
    "IsActive (allocation_counter (observed_space n))"
    "NextBytes (allocation_counter (observed_space n)) = n"
    "info_start (allocation_info (observed_space n)) = 4096"
    "info_limit (allocation_info (observed_space n)) = 4096"
    "fillers (observed_space n) = []" for n
    by (simp_all add: observed_space_def)
  have m: "(4096 + address_modulus arch64 - 4096) mod address_modulus arch64 = 0"
    by simp
  have padded: "InvokeAllocationObservers arch64 keep_counter unobserved_space 4104 16 24 24
     = Inr unobserved_space"
    using InvokeAllocationObservers_asserts_sizes[of arch64 keep_counter unobserved_space
        4104 16 24 24] sz u by simp
  have both_fail: "InvokeAllocationObservers arch64 keep_counter unobserved_space 4104 16 24 32
     = Inl DCHECK_failed"
    using InvokeAllocationObservers_asserts_sizes[of arch64 keep_counter unobserved_space
        4104 16 24 32] by simp
  have both_hold: "InvokeAllocationObservers arch64 keep_counter unobserved_space 4096 16 16 16
     = Inr unobserved_space"
    using InvokeAllocationObservers_asserts_sizes[of arch64 keep_counter unobserved_space
        4096 16 16 16] sz u by simp
  have over: "InvokeAllocationObservers arch64 keep_counter unobserved_space 4096 16 16 24
     = Inr unobserved_space"
    using InvokeAllocationObservers_asserts_sizes[of arch64 keep_counter unobserved_space
        4096 16 16 24] sz u by simp
  have below: "InvokeAllocationObservers arch64 keep_counter (observed_space 64) 4096 16 16 16
     = Inr (observed_space 64)"
    using InvokeAllocationObservers_asserts_sizes[of arch64 keep_counter "observed_space 64"
        4096 16 16 16] sz o m by simp
  have so: "(4096::nat) = (4096 + 16 - 16) mod address_modulus arch64"
    by (simp add: address_modulus_def arch64_def)
  have step: "InvokeAllocationObservers arch64 keep_counter (observed_space 16) 4096 16 16 16
     = Inr ((observed_space 16)\<lparr>fillers := [(4096, 16)]\<rparr>)"
    using InvokeAllocationObservers_asserts_sizes[of arch64 keep_counter "observed_space 16"
        4096 16 16 16] sz o[of 16] m so
    by (simp add: keep_counter_def static_cast_int_def)
  show ?thesis using sz padded both_fail both_hold over below step by simp
qed

text \<open>
  The claim as worded fails for an allocation without any padding: all three sizes are
  equal, both equalities hold, and the call passes the assertions and returns.
\<close>

theorem InvokeAllocationObservers_both_equalities_counterexample:
  "InvokeAllocationObservers arch64 keep_counter unobserved_space 4096 16 16 16
     = Inr unobserved_space \<and>
   \<not> exactly_one_equality 16 16 16"
  by (simp add: InvokeAllocationObservers_def unobserved_space_def exactly_one_equality_def)

section \<open>The inlining decision: proofs\<close>


lemma creates_arguments_object_iff:
  "creates_arguments_object is \<longleftrightarrow>
   \<not> list_all (\<lambda>i. current_bytecode i \<notin>
                  {''kCreateMappedArguments'', ''kCreateUnmappedArguments'',
                   ''kCreateRestParameter''}) is"
  by (induction "is") auto

text \<open>
  Claim C10. A candidate that passes the earlier rejection checks and whose bytecode is
  shorter than \<open>max_maglev_inlined_bytecode_size_small\<close> is inlined, whatever the
  inlining depth and the depth limit are, and the builder is left as it was; and for
  every candidate below that threshold the answer does not depend on the depth or on
  the depth limit.
\<close>

theorem small_functions_inlined_at_any_depth:
  "(passes_earlier_checks float_less flags b shared feedback_vector call_frequency \<and>
    length_in_bytes (GetBytecodeArray shared) < max_maglev_inlined_bytecode_size_small flags
    \<longrightarrow> ShouldInlineCall float_less (flags\<lparr>max_maglev_inline_depth := limit\<rparr>)
          (b\<lparr>inlining_depth := depth\<rparr>) shared feedback_vector call_frequency
        = (True, b\<lparr>inlining_depth := depth\<rparr>)) \<and>
   (length_in_bytes (GetBytecodeArray shared) < max_maglev_inlined_bytecode_size_small flags
    \<longrightarrow> fst (ShouldInlineCall float_less (flags\<lparr>max_maglev_inline_depth := limit\<rparr>)
               (b\<lparr>inlining_depth := depth\<rparr>) shared feedback_vector call_frequency)
        = fst (ShouldInlineCall float_less flags b shared feedback_vector call_frequency))"
  by (auto simp: ShouldInlineCall_def passes_earlier_checks_def Let_def
        creates_arguments_object_iff)

theorem small_functions_inlined_witness:
  "passes_earlier_checks (<) some_flags deep_caller small_callee (Some 0) 5 \<and>
   length_in_bytes (GetBytecodeArray small_callee)
     < max_maglev_inlined_bytecode_size_small some_flags \<and>
   inlining_depth deep_caller > max_maglev_inline_depth some_flags \<and>
   ShouldInlineCall (<) some_flags deep_caller small_callee (Some 0) 5 = (True, deep_caller)"
proof -
  have p: "passes_earlier_checks (<) some_flags deep_caller small_callee (Some 0) 5"
    by (simp add: passes_earlier_checks_def some_flags_def deep_caller_def small_callee_def)
  have l: "length_in_bytes (GetBytecodeArray small_callee)
     < max_maglev_inlined_bytecode_size_small some_flags"
    by (simp add: some_flags_def small_callee_def)
  have d: "inlining_depth deep_caller > max_maglev_inline_depth some_flags"
    by (simp add: some_flags_def deep_caller_def)
  have e: "some_flags\<lparr>max_maglev_inline_depth := 1\<rparr> = some_flags"
    "deep_caller\<lparr>inlining_depth := 50\<rparr> = deep_caller"
    by (simp_all add: some_flags_def deep_caller_def)
  from small_functions_inlined_at_any_depth[of "(<)" some_flags deep_caller small_callee
      "Some 0" 5 1 50] p l d e
  show ?thesis by simp
qed

section \<open>Looking for the next branch: proofs\<close>


lemma store_register_cases:
  "store_register it = None \<longleftrightarrow>
     current_bytecode it \<noteq> ''kStar'' \<and> current_bytecode it \<notin> set SHORT_STAR_BYTECODE_LIST"
  by (simp add: store_register_def)

lemma fixed_not_short:
  "''kMov'' \<notin> set SHORT_STAR_BYTECODE_LIST"
  "''kToBoolean'' \<notin> set SHORT_STAR_BYTECODE_LIST"
  "''kLogicalNot'' \<notin> set SHORT_STAR_BYTECODE_LIST"
  "''kToBooleanLogicalNot'' \<notin> set SHORT_STAR_BYTECODE_LIST"
  "''kStar'' \<notin> set SHORT_STAR_BYTECODE_LIST"
  "''kReturn'' \<notin> set SHORT_STAR_BYTECODE_LIST"
  by (simp_all add: SHORT_STAR_BYTECODE_LIST_def)

lemma branch_not_short:
  "x \<in> branch_bytecodes \<Longrightarrow> x \<notin> set SHORT_STAR_BYTECODE_LIST"
  unfolding branch_bytecodes_def SHORT_STAR_BYTECODE_LIST_def by fastforce

lemma short_star_not_other:
  assumes "x \<in> set SHORT_STAR_BYTECODE_LIST"
  shows "x \<noteq> ''kMov''" "x \<noteq> ''kToBoolean''" "x \<noteq> ''kLogicalNot''"
    "x \<noteq> ''kToBooleanLogicalNot''" "x \<noteq> ''kStar''" "x \<noteq> ''kReturn''"
    "x \<notin> branch_bytecodes"
  using assms fixed_not_short branch_not_short by blast+

lemma loop_accumulator_only:
  assumes "\<not> IsOffsetAMergePoint b (current_offset it)"
    and "current_bytecode it \<in> accumulator_only_bytecodes"
  shows "TryFindNextBranch_loop b (it # rest) lvl = TryFindNextBranch_loop b rest lvl"
proof (cases b)
  case (MaglevGraphBuilder arr pos merge_point live inl new_target exit_offset par)
  have "current_bytecode it = ''kMov'' \<or> current_bytecode it = ''kToBoolean'' \<or>
        current_bytecode it = ''kLogicalNot'' \<or> current_bytecode it = ''kToBooleanLogicalNot''"
    using assms(2) by (simp add: accumulator_only_bytecodes_def)
  then show ?thesis using assms(1) MaglevGraphBuilder by simp
qed

lemma loop_star:
  assumes "\<not> IsOffsetAMergePoint b (current_offset it)"
    and "store_register it = Some r"
  shows "TryFindNextBranch_loop b (it # rest) lvl =
     (if is_parameter r \<or> RegisterIsLiveOut b (current_offset it) (index r)
      then Inr (None, lvl) else TryFindNextBranch_loop b rest lvl)"
proof (cases b)
  case b: (MaglevGraphBuilder arr pos merge_point live inl new_target exit_offset par)
  show ?thesis
  proof (cases "current_bytecode it = ''kStar''")
    case True
    then have "r = GetRegisterOperand0 it" using assms(2) by (simp add: store_register_def)
    then show ?thesis using True assms(1) b by (simp add: Let_def)
  next
    case False
    then have s: "current_bytecode it \<in> set SHORT_STAR_BYTECODE_LIST"
      and r: "r = FromShortStar (current_bytecode it)"
      using assms(2) by (auto simp: store_register_def split: if_splits)
    show ?thesis using s r False assms(1) b short_star_not_other[OF s]
      by (simp add: Let_def)
  qed
qed

lemma loop_passed_over:
  assumes "passed_over b it"
  shows "TryFindNextBranch_loop b (it # rest) lvl = TryFindNextBranch_loop b rest lvl"
proof (cases "store_register it")
  case None
  then show ?thesis using assms by (simp add: passed_over_def loop_accumulator_only)
next
  case (Some r)
  then show ?thesis using assms by (simp add: passed_over_def loop_star)
qed

lemma loop_default:
  assumes "\<not> IsOffsetAMergePoint b (current_offset it)"
    and "current_bytecode it \<notin> supported_bytecodes"
  shows "TryFindNextBranch_loop b (it # rest) lvl = Inr (None, lvl)"
proof (cases b)
  case (MaglevGraphBuilder arr pos merge_point live inl new_target exit_offset par)
  have "current_bytecode it \<noteq> ''kMov''" "current_bytecode it \<noteq> ''kToBoolean''"
    "current_bytecode it \<noteq> ''kLogicalNot''" "current_bytecode it \<noteq> ''kToBooleanLogicalNot''"
    "current_bytecode it \<noteq> ''kStar''" "current_bytecode it \<notin> set SHORT_STAR_BYTECODE_LIST"
    "current_bytecode it \<noteq> ''kReturn''" "current_bytecode it \<notin> branch_bytecodes"
    using assms(2) by (simp_all add: supported_bytecodes_def accumulator_only_bytecodes_def)
  then show ?thesis using assms(1) MaglevGraphBuilder
    by (simp add: branch_bytecodes_def)
qed

lemma loop_merge_point:
  assumes "IsOffsetAMergePoint b (current_offset it)"
  shows "TryFindNextBranch_loop b (it # rest) lvl = Inr (None, lvl)"
  using assms by (cases b) simp

lemma loop_ends_fusion:
  assumes "ends_fusion b it"
  shows "TryFindNextBranch_loop b (it # rest) lvl = Inr (None, lvl)"
proof (cases "IsOffsetAMergePoint b (current_offset it)")
  case True
  then show ?thesis by (rule loop_merge_point)
next
  case False
  show ?thesis
  proof (cases "store_register it")
    case None
    then show ?thesis using assms False by (simp add: ends_fusion_def loop_default)
  next
    case (Some r)
    then show ?thesis using assms False by (simp add: ends_fusion_def loop_star)
  qed
qed

lemma loop_bails:
  "list_all (passed_over b) before \<Longrightarrow> ends_fusion b it \<Longrightarrow>
   TryFindNextBranch_loop b (before @ it # after) lvl = Inr (None, lvl)"
  by (induction before) (simp_all add: loop_passed_over loop_ends_fusion)

lemma loop_crosses_return:
  assumes "crosses_return b it rest"
  shows "TryFindNextBranch_loop b (it # rest) lvl =
     (case parent b of
        None \<Rightarrow> Inl DCHECK_failed
      | Some p \<Rightarrow>
          TryFindNextBranch_loop p (drop (Suc (iterator_position p)) (bytecode_array p)) (lvl + 1))"
proof (cases b)
  case (MaglevGraphBuilder arr pos merge_point live inl new_target exit_offset par)
  then show ?thesis
    using assms fixed_not_short by (simp add: crosses_return_def)
qed

lemma loop_return_bails:
  assumes "\<not> IsOffsetAMergePoint b (current_offset it)" "current_bytecode it = ''kReturn''"
    and "\<not> crosses_return b it rest"
  shows "TryFindNextBranch_loop b (it # rest) lvl = Inl DCHECK_failed \<or>
         TryFindNextBranch_loop b (it # rest) lvl = Inr (None, lvl)"
proof (cases b)
  case b: (MaglevGraphBuilder arr pos merge_point live inl new_target exit_offset par)
  have c: "\<not> inl \<or> opcode new_target \<noteq> ''kRootConstant'' \<or>
        root_index new_target \<noteq> kUndefinedValue \<or>
        next_bytecode rest \<noteq> ''kIllegal'' \<or> merge_point exit_offset"
    using assms b by (simp add: crosses_return_def)
  have e: "TryFindNextBranch_loop b (it # rest) lvl =
      (if \<not> inl then Inr (None, lvl)
       else if opcode new_target \<noteq> ''kRootConstant'' then Inr (None, lvl)
       else if root_index new_target \<noteq> kUndefinedValue then Inl DCHECK_failed
       else if next_bytecode rest \<noteq> ''kIllegal'' \<or> merge_point exit_offset
       then Inr (None, lvl)
       else (case par of
          None \<Rightarrow> Inl DCHECK_failed
        | Some p \<Rightarrow> TryFindNextBranch_loop p
            (drop (Suc (iterator_position p)) (bytecode_array p)) (lvl + 1)))"
    using assms(1,2) b fixed_not_short by simp
  show ?thesis unfolding e using c by (simp split: if_splits)
qed

lemma loop_branch:
  assumes "\<not> IsOffsetAMergePoint b (current_offset it)"
    and "current_bytecode it \<in> branch_bytecodes"
  shows "TryFindNextBranch_loop b (it # rest) lvl = Inr (Some (current_offset it), lvl)"
proof (cases b)
  case (MaglevGraphBuilder arr pos merge_point live inl new_target exit_offset par)
  have "current_bytecode it \<noteq> ''kMov''" "current_bytecode it \<noteq> ''kToBoolean''"
    "current_bytecode it \<noteq> ''kLogicalNot''" "current_bytecode it \<noteq> ''kToBooleanLogicalNot''"
    "current_bytecode it \<noteq> ''kStar''" "current_bytecode it \<noteq> ''kReturn''"
    using assms(2) unfolding branch_bytecodes_def by fastforce+
  then show ?thesis
    using assms MaglevGraphBuilder branch_not_short[OF assms(2)]
    by (simp add: branch_bytecodes_def)
qed

lemma loop_other:
  assumes np: "\<not> passed_over b it" and nc: "\<not> crosses_return b it rest"
  shows "TryFindNextBranch_loop b (it # rest) lvl = Inl DCHECK_failed \<or>
         (\<exists>x. TryFindNextBranch_loop b (it # rest) lvl = Inr (x, lvl))"
proof (cases "IsOffsetAMergePoint b (current_offset it)")
  case True
  then show ?thesis by (simp add: loop_merge_point)
next
  case nm: False
  show ?thesis
  proof (cases "store_register it")
    case (Some r)
    then show ?thesis using np nm by (simp add: loop_star passed_over_def)
  next
    case None
    then have na: "current_bytecode it \<notin> accumulator_only_bytecodes"
      using np nm by (simp add: passed_over_def)
    consider (ret) "current_bytecode it = ''kReturn''"
      | (branch) "current_bytecode it \<in> branch_bytecodes"
      | (other) "current_bytecode it \<notin> supported_bytecodes"
      using na None by (auto simp: supported_bytecodes_def store_register_cases)
    then show ?thesis
    proof cases
      case ret
      from loop_return_bails[OF nm ret nc, of lvl] show ?thesis by auto
    next
      case branch
      then show ?thesis using nm by (simp add: loop_branch)
    next
      case other
      then show ?thesis using nm by (simp add: loop_default)
    qed
  qed
qed

lemma loop_level_mono:
  "TryFindNextBranch_loop b rest lvl = Inr (r, lvl') \<Longrightarrow> lvl \<le> lvl'"
proof (induction b arbitrary: rest lvl)
  case (MaglevGraphBuilder arr pos merge_point live inl new_target exit_offset par)
  let ?b = "MaglevGraphBuilder arr pos merge_point live inl new_target exit_offset par"
  from MaglevGraphBuilder.prems show ?case
  proof (induction rest)
    case Nil
    then show ?case by simp
  next
    case (Cons it rest)
    consider (over) "passed_over ?b it" | (cross) "crosses_return ?b it rest"
      | (other) "\<not> passed_over ?b it" "\<not> crosses_return ?b it rest" by blast
    then show ?case
    proof cases
      case over
      then show ?thesis using Cons by (simp only: loop_passed_over)
    next
      case cross
      from Cons.prems have c: "(case par of
          None \<Rightarrow> Inl DCHECK_failed
        | Some p \<Rightarrow> TryFindNextBranch_loop p
            (drop (Suc (iterator_position p)) (bytecode_array p)) (lvl + 1)) = Inr (r, lvl')"
        unfolding loop_crosses_return[OF cross] by simp
      then obtain p where p: "par = Some p"
        "TryFindNextBranch_loop p (drop (Suc (iterator_position p)) (bytecode_array p)) (lvl + 1)
           = Inr (r, lvl')"
        by (cases par) auto
      have "lvl + 1 \<le> lvl'"
        by (rule MaglevGraphBuilder.IH[OF _ p(2)]) (simp add: p(1))
      then show ?thesis by simp
    next
      case other
      from loop_other[OF other, of lvl] Cons.prems show ?thesis by auto
    qed
  qed
qed

lemma loop_crossing:
  assumes "TryFindNextBranch_loop b rest lvl = Inr (r, lvl')" and "lvl' \<noteq> lvl"
    and "list_all (\<lambda>i. current_bytecode i \<noteq> ''kIllegal'') rest"
  shows "\<exists>before ret. rest = before @ [ret] \<and> list_all (passed_over b) before \<and>
           crosses_return b ret [] \<and> parent b \<noteq> None \<and> lvl < lvl'"
  using assms
proof (induction rest)
  case Nil
  then show ?case by simp
next
  case (Cons it rest)
  consider (over) "passed_over b it" | (cross) "crosses_return b it rest"
    | (other) "\<not> passed_over b it" "\<not> crosses_return b it rest" by blast
  then show ?case
  proof cases
    case over
    from Cons.prems(1) have "TryFindNextBranch_loop b rest lvl = Inr (r, lvl')"
      by (simp only: loop_passed_over[OF over])
    from Cons.IH[OF this Cons.prems(2)] Cons.prems(3)
    obtain before ret where "rest = before @ [ret]" "list_all (passed_over b) before"
      "crosses_return b ret []" "parent b \<noteq> None" "lvl < lvl'"
      by auto
    then show ?thesis using over
      by (intro exI[of _ "it # before"] exI[of _ ret]) simp
  next
    case cross
    then have "next_bytecode rest = ''kIllegal''" by (simp add: crosses_return_def)
    then have e: "rest = []" using Cons.prems(3)
      by (cases rest) (auto simp: next_bytecode_def)
    from Cons.prems(1) obtain p where p: "parent b = Some p"
      "TryFindNextBranch_loop p (drop (Suc (iterator_position p)) (bytecode_array p)) (lvl + 1)
           = Inr (r, lvl')"
      unfolding loop_crosses_return[OF cross] by (cases "parent b") auto
    from loop_level_mono[OF p(2)] have "lvl < lvl'" by simp
    then show ?thesis using cross e p(1)
      by (intro exI[of _ "[]"] exI[of _ it]) simp
  next
    case other
    from loop_other[OF other, of lvl] Cons.prems(1,2) show ?thesis by auto
  qed
qed


lemma loop_skips:
  "list_all (passed_over b) before \<Longrightarrow>
   TryFindNextBranch_loop b (before @ rest) lvl = TryFindNextBranch_loop b rest lvl"
  by (induction before) (simp_all add: loop_passed_over)

lemma loop_return_blocked:
  assumes "\<not> IsOffsetAMergePoint b (current_offset it)" "current_bytecode it = ''kReturn''"
    and "\<not> is_inline b \<or> opcode (inlined_new_target b) \<noteq> ''kRootConstant'' \<or>
         (root_index (inlined_new_target b) = kUndefinedValue \<and>
          (next_bytecode rest \<noteq> ''kIllegal'' \<or> IsOffsetAMergePoint b (inline_exit_offset b)))"
  shows "TryFindNextBranch_loop b (it # rest) lvl = Inr (None, lvl)"
proof (cases b)
  case b: (MaglevGraphBuilder arr pos merge_point live inl new_target exit_offset par)
  have c: "\<not> inl \<or> opcode new_target \<noteq> ''kRootConstant'' \<or>
           (root_index new_target = kUndefinedValue \<and>
            (next_bytecode rest \<noteq> ''kIllegal'' \<or> merge_point exit_offset))"
    using assms(3) b by simp
  have e: "TryFindNextBranch_loop b (it # rest) lvl =
      (if \<not> inl then Inr (None, lvl)
       else if opcode new_target \<noteq> ''kRootConstant'' then Inr (None, lvl)
       else if root_index new_target \<noteq> kUndefinedValue then Inl DCHECK_failed
       else if next_bytecode rest \<noteq> ''kIllegal'' \<or> merge_point exit_offset
       then Inr (None, lvl)
       else
         (case par of
            None \<Rightarrow> Inl DCHECK_failed
          | Some p \<Rightarrow>
              TryFindNextBranch_loop p (drop (Suc (iterator_position p)) (bytecode_array p))
                (lvl + 1)))"
    using assms(1,2) b fixed_not_short by simp
  show ?thesis unfolding e using c by auto
qed

text \<open>
  Claim C5. When the positions that follow the test are passed over by the scan up to
  one that ends fusion (its offset is a merge point, or it is a \<^verbatim>\<open>Star\<close> or short
  \<^verbatim>\<open>Star\<close> to a parameter or to a register that is live after it, or its bytecode is
  outside the supported set), \<open>TryFindNextBranch\<close> returns no offset and leaves the
  inline level as it was. And when it returns with a raised inline level (it crossed a
  Return into the caller), then the builder is inlining, the inlined new-target is the
  undefined root constant, the inline exit offset is not a merge point, and the Return it
  crossed is the last bytecode of the function, reached over passed-over positions only.
  At such a Return the answer is the answer of the scan of the parent builder with the
  inline level raised by one, so that the same conditions end fusion in the caller's
  bytecode. At a Return that may not be crossed (the builder is not inlining, the
  new-target is not a root constant, a bytecode follows the Return, or the inline exit
  offset is a merge point) the scan returns no offset; and at a conditional jump reached
  over passed-over positions it returns the offset of the jump.
\<close>

theorem TryFindNextBranch_bails_and_crosses:
  "(drop (Suc (iterator_position b)) (bytecode_array b) = before @ it # after \<and>
    list_all (passed_over b) before \<and> ends_fusion b it
    \<longrightarrow> TryFindNextBranch b lvl = Inr (None, lvl)) \<and>
   (TryFindNextBranch b lvl = Inr (r, lvl') \<and> lvl' \<noteq> lvl \<and>
    list_all (\<lambda>i. current_bytecode i \<noteq> ''kIllegal'') (bytecode_array b)
    \<longrightarrow> is_inline b \<and> opcode (inlined_new_target b) = ''kRootConstant'' \<and>
        root_index (inlined_new_target b) = kUndefinedValue \<and>
        \<not> IsOffsetAMergePoint b (inline_exit_offset b) \<and> parent b \<noteq> None \<and>
        (\<exists>skipped ret. drop (Suc (iterator_position b)) (bytecode_array b) = skipped @ [ret] \<and>
           list_all (passed_over b) skipped \<and> current_bytecode ret = ''kReturn'')) \<and>
   (drop (Suc (iterator_position b)) (bytecode_array b) = before @ it # after \<and>
    list_all (passed_over b) before \<and> crosses_return b it after \<and> parent b = Some p
    \<longrightarrow> TryFindNextBranch b lvl = TryFindNextBranch p (lvl + 1)) \<and>
   (drop (Suc (iterator_position b)) (bytecode_array b) = before @ it # after \<and>
    list_all (passed_over b) before \<and> \<not> IsOffsetAMergePoint b (current_offset it) \<and>
    current_bytecode it = ''kReturn'' \<and>
    (\<not> is_inline b \<or> opcode (inlined_new_target b) \<noteq> ''kRootConstant'' \<or>
     (root_index (inlined_new_target b) = kUndefinedValue \<and>
      (next_bytecode after \<noteq> ''kIllegal'' \<or> IsOffsetAMergePoint b (inline_exit_offset b))))
    \<longrightarrow> TryFindNextBranch b lvl = Inr (None, lvl)) \<and>
   (drop (Suc (iterator_position b)) (bytecode_array b) = before @ it # after \<and>
    list_all (passed_over b) before \<and> \<not> IsOffsetAMergePoint b (current_offset it) \<and>
    current_bytecode it \<in> branch_bytecodes
    \<longrightarrow> TryFindNextBranch b lvl = Inr (Some (current_offset it), lvl))"
proof -
  let ?rest = "drop (Suc (iterator_position b)) (bytecode_array b)"
  have c1: "?rest = before @ it # after \<and>
    list_all (passed_over b) before \<and> ends_fusion b it
    \<longrightarrow> TryFindNextBranch b lvl = Inr (None, lvl)"
    by (simp add: TryFindNextBranch_def loop_bails)
  have c2: "TryFindNextBranch b lvl = Inr (r, lvl') \<and> lvl' \<noteq> lvl \<and>
    list_all (\<lambda>i. current_bytecode i \<noteq> ''kIllegal'') (bytecode_array b)
    \<longrightarrow> is_inline b \<and> opcode (inlined_new_target b) = ''kRootConstant'' \<and>
        root_index (inlined_new_target b) = kUndefinedValue \<and>
        \<not> IsOffsetAMergePoint b (inline_exit_offset b) \<and> parent b \<noteq> None \<and>
        (\<exists>skipped ret. ?rest = skipped @ [ret] \<and>
           list_all (passed_over b) skipped \<and> current_bytecode ret = ''kReturn'')"
  proof
    assume a: "TryFindNextBranch b lvl = Inr (r, lvl') \<and> lvl' \<noteq> lvl \<and>
      list_all (\<lambda>i. current_bytecode i \<noteq> ''kIllegal'') (bytecode_array b)"
    then have l: "TryFindNextBranch_loop b ?rest lvl = Inr (r, lvl')"
      by (simp add: TryFindNextBranch_def)
    have "set ?rest \<subseteq> set (bytecode_array b)" by (rule set_drop_subset)
    then have i: "list_all (\<lambda>i. current_bytecode i \<noteq> ''kIllegal'') ?rest"
      using a by (auto simp: list_all_iff)
    from loop_crossing[OF l _ i] a
    obtain skipped ret where c: "?rest = skipped @ [ret]" "list_all (passed_over b) skipped"
      "crosses_return b ret []" "parent b \<noteq> None"
      by blast
    from c(3) have k: "is_inline b" "opcode (inlined_new_target b) = ''kRootConstant''"
      "root_index (inlined_new_target b) = kUndefinedValue"
      "\<not> IsOffsetAMergePoint b (inline_exit_offset b)" "current_bytecode ret = ''kReturn''"
      by (simp_all add: crosses_return_def)
    show "is_inline b \<and> opcode (inlined_new_target b) = ''kRootConstant'' \<and>
        root_index (inlined_new_target b) = kUndefinedValue \<and>
        \<not> IsOffsetAMergePoint b (inline_exit_offset b) \<and> parent b \<noteq> None \<and>
        (\<exists>skipped ret. ?rest = skipped @ [ret] \<and>
           list_all (passed_over b) skipped \<and> current_bytecode ret = ''kReturn'')"
      using k c by blast
  qed
  have c3: "?rest = before @ it # after \<and>
    list_all (passed_over b) before \<and> crosses_return b it after \<and> parent b = Some p
    \<longrightarrow> TryFindNextBranch b lvl = TryFindNextBranch p (lvl + 1)"
    by (simp add: TryFindNextBranch_def loop_skips loop_crosses_return)
  have c4: "?rest = before @ it # after \<and>
    list_all (passed_over b) before \<and> \<not> IsOffsetAMergePoint b (current_offset it) \<and>
    current_bytecode it = ''kReturn'' \<and>
    (\<not> is_inline b \<or> opcode (inlined_new_target b) \<noteq> ''kRootConstant'' \<or>
     (root_index (inlined_new_target b) = kUndefinedValue \<and>
      (next_bytecode after \<noteq> ''kIllegal'' \<or> IsOffsetAMergePoint b (inline_exit_offset b))))
    \<longrightarrow> TryFindNextBranch b lvl = Inr (None, lvl)"
  proof
    assume a: "?rest = before @ it # after \<and>
      list_all (passed_over b) before \<and> \<not> IsOffsetAMergePoint b (current_offset it) \<and>
      current_bytecode it = ''kReturn'' \<and>
      (\<not> is_inline b \<or> opcode (inlined_new_target b) \<noteq> ''kRootConstant'' \<or>
       (root_index (inlined_new_target b) = kUndefinedValue \<and>
        (next_bytecode after \<noteq> ''kIllegal'' \<or> IsOffsetAMergePoint b (inline_exit_offset b))))"
    then have "TryFindNextBranch_loop b (it # after) lvl = Inr (None, lvl)"
      by (intro loop_return_blocked) blast+
    then show "TryFindNextBranch b lvl = Inr (None, lvl)"
      using a by (simp add: TryFindNextBranch_def loop_skips)
  qed
  have c5: "?rest = before @ it # after \<and>
    list_all (passed_over b) before \<and> \<not> IsOffsetAMergePoint b (current_offset it) \<and>
    current_bytecode it \<in> branch_bytecodes
    \<longrightarrow> TryFindNextBranch b lvl = Inr (Some (current_offset it), lvl)"
    by (simp add: TryFindNextBranch_def loop_skips loop_branch)
  from c1 c2 c3 c4 c5 show ?thesis by (intro conjI)
qed

lemma short_star0: "''kStar0'' \<in> set SHORT_STAR_BYTECODE_LIST"
  by (simp add: SHORT_STAR_BYTECODE_LIST_def)

lemma passed_over_instances:
  "passed_over caller_builder (plain_instruction ''kStar0'' 4)"
  "passed_over callee_builder (plain_instruction ''kLogicalNot'' 1)"
  "passed_over callee_of_merging_caller (plain_instruction ''kLogicalNot'' 1)"
  "passed_over function_builder (plain_instruction ''kLogicalNot'' 1)"
  by (simp_all add: passed_over_def caller_builder_def callee_builder_def
        callee_of_merging_caller_def function_builder_def plain_instruction_def
        store_register_def short_star0 FromShortStar_def SHORT_STAR_BYTECODE_LIST_def
        accumulator_only_bytecodes_def)

theorem TryFindNextBranch_witness:
  "ends_fusion caller_with_live_register (plain_instruction ''kStar0'' 1) \<and>
   TryFindNextBranch caller_with_live_register 0 = Inr (None, 0) \<and>
   TryFindNextBranch callee_builder 0 = Inr (Some 5, 1) \<and>
   is_inline callee_builder \<and>
   root_index (inlined_new_target callee_builder) = kUndefinedValue \<and>
   \<not> IsOffsetAMergePoint callee_builder (inline_exit_offset callee_builder) \<and>
   TryFindNextBranch callee_builder 0 = TryFindNextBranch caller_builder 1 \<and>
   TryFindNextBranch caller_builder 1 = Inr (Some 5, 1) \<and>
   ends_fusion caller_with_merge_point (plain_instruction ''kStar0'' 4) \<and>
   TryFindNextBranch callee_of_merging_caller 0 = Inr (None, 1) \<and>
   TryFindNextBranch function_builder 0 = Inr (None, 0)"
proof -
  have e: "ends_fusion caller_with_live_register (plain_instruction ''kStar0'' 1)"
    by (simp add: ends_fusion_def caller_with_live_register_def plain_instruction_def
          store_register_def short_star0 FromShortStar_def SHORT_STAR_BYTECODE_LIST_def)
  have d: "drop (Suc (iterator_position caller_with_live_register))
             (bytecode_array caller_with_live_register)
           = [] @ plain_instruction ''kStar0'' 1 #
               [plain_instruction ''kJumpIfFalse'' 2, plain_instruction ''kReturn'' 4]"
    by (simp add: caller_with_live_register_def)
  have live: "TryFindNextBranch caller_with_live_register 0 = Inr (None, 0)"
    using TryFindNextBranch_bails_and_crosses[where b = caller_with_live_register and before = "[]"
        and it = "plain_instruction ''kStar0'' 1"
        and after = "[plain_instruction ''kJumpIfFalse'' 2, plain_instruction ''kReturn'' 4]"
        and lvl = 0] e d by simp
  have i: "list_all (\<lambda>i. current_bytecode i \<noteq> ''kIllegal'') (bytecode_array callee_builder)"
    by (simp add: callee_builder_def plain_instruction_def)
  have dc: "drop (Suc (iterator_position callee_builder)) (bytecode_array callee_builder)
           = [plain_instruction ''kLogicalNot'' 1] @ plain_instruction ''kReturn'' 2 # []"
    by (simp add: callee_builder_def)
  have cr: "crosses_return callee_builder (plain_instruction ''kReturn'' 2) []"
    by (simp add: crosses_return_def callee_builder_def plain_instruction_def
          undefined_new_target_def new_node_def next_bytecode_def)
  have pc: "parent callee_builder = Some caller_builder" by (simp add: callee_builder_def)
  have cross: "TryFindNextBranch callee_builder 0 = TryFindNextBranch caller_builder 1"
    using TryFindNextBranch_bails_and_crosses[where b = callee_builder and before = "[plain_instruction ''kLogicalNot'' 1]"
        and it = "plain_instruction ''kReturn'' 2" and after = "[]" and lvl = 0
        and p = caller_builder] dc cr pc passed_over_instances(2) by simp
  have dk: "drop (Suc (iterator_position caller_builder)) (bytecode_array caller_builder)
           = [plain_instruction ''kStar0'' 4] @ plain_instruction ''kJumpIfFalse'' 5 #
               [plain_instruction ''kReturn'' 7]"
    by (simp add: caller_builder_def)
  have br: "\<not> IsOffsetAMergePoint caller_builder
               (current_offset (plain_instruction ''kJumpIfFalse'' 5))"
    "current_bytecode (plain_instruction ''kJumpIfFalse'' 5) \<in> branch_bytecodes"
    "current_offset (plain_instruction ''kJumpIfFalse'' 5) = 5"
    by (simp_all add: caller_builder_def plain_instruction_def branch_bytecodes_def)
  have found: "TryFindNextBranch caller_builder 1 = Inr (Some 5, 1)"
    using TryFindNextBranch_bails_and_crosses[where b = caller_builder and before = "[plain_instruction ''kStar0'' 4]"
        and it = "plain_instruction ''kJumpIfFalse'' 5"
        and after = "[plain_instruction ''kReturn'' 7]" and lvl = 1]
      dk br passed_over_instances(1) by simp
  have callee: "TryFindNextBranch callee_builder 0 = Inr (Some 5, 1)"
    using cross found by simp
  have k: "is_inline callee_builder \<and>
      root_index (inlined_new_target callee_builder) = kUndefinedValue \<and>
      \<not> IsOffsetAMergePoint callee_builder (inline_exit_offset callee_builder)"
    using TryFindNextBranch_bails_and_crosses[where b = callee_builder and lvl = 0 and r = "Some 5" and lvl' = 1] callee i
    by simp
  have em: "ends_fusion caller_with_merge_point (plain_instruction ''kStar0'' 4)"
    by (simp add: ends_fusion_def caller_with_merge_point_def plain_instruction_def)
  have dm: "drop (Suc (iterator_position caller_with_merge_point))
             (bytecode_array caller_with_merge_point)
           = [] @ plain_instruction ''kStar0'' 4 #
               [plain_instruction ''kJumpIfFalse'' 5, plain_instruction ''kReturn'' 7]"
    by (simp add: caller_with_merge_point_def)
  have merging: "TryFindNextBranch caller_with_merge_point 1 = Inr (None, 1)"
    using TryFindNextBranch_bails_and_crosses[where b = caller_with_merge_point and before = "[]"
        and it = "plain_instruction ''kStar0'' 4"
        and after = "[plain_instruction ''kJumpIfFalse'' 5, plain_instruction ''kReturn'' 7]"
        and lvl = 1] em dm by simp
  have dcm: "drop (Suc (iterator_position callee_of_merging_caller))
               (bytecode_array callee_of_merging_caller)
           = [plain_instruction ''kLogicalNot'' 1] @ plain_instruction ''kReturn'' 2 # []"
    by (simp add: callee_of_merging_caller_def)
  have crm: "crosses_return callee_of_merging_caller (plain_instruction ''kReturn'' 2) []"
    by (simp add: crosses_return_def callee_of_merging_caller_def plain_instruction_def
          undefined_new_target_def new_node_def next_bytecode_def)
  have pm: "parent callee_of_merging_caller = Some caller_with_merge_point"
    by (simp add: callee_of_merging_caller_def)
  have after_crossing: "TryFindNextBranch callee_of_merging_caller 0 = Inr (None, 1)"
    using TryFindNextBranch_bails_and_crosses[where b = callee_of_merging_caller
        and before = "[plain_instruction ''kLogicalNot'' 1]"
        and it = "plain_instruction ''kReturn'' 2" and after = "[]" and lvl = 0
        and p = caller_with_merge_point] dcm crm pm passed_over_instances(3) merging by simp
  have df: "drop (Suc (iterator_position function_builder)) (bytecode_array function_builder)
           = [plain_instruction ''kLogicalNot'' 1] @ plain_instruction ''kReturn'' 2 # []"
    by (simp add: function_builder_def)
  have nf: "\<not> IsOffsetAMergePoint function_builder
               (current_offset (plain_instruction ''kReturn'' 2))"
    "current_bytecode (plain_instruction ''kReturn'' 2) = ''kReturn''"
    "\<not> is_inline function_builder"
    by (simp_all add: function_builder_def plain_instruction_def)
  have plain: "TryFindNextBranch function_builder 0 = Inr (None, 0)"
    using TryFindNextBranch_bails_and_crosses[where b = function_builder and before = "[plain_instruction ''kLogicalNot'' 1]"
        and it = "plain_instruction ''kReturn'' 2" and after = "[]" and lvl = 0]
      df nf passed_over_instances(4) by simp
  show ?thesis using e live callee k cross found em after_crossing plain by simp
qed
section \<open>Loop peeling: proofs\<close>


lemma MergeDeadIntoFrameState_effect:
  assumes "in_peeled_iteration b" and "MergeDeadIntoFrameState ms b t = Inr b'"
  shows "in_bounds t (predecessors b) \<and> predecessors b' = decrement_at t (predecessors b) \<and>
         decremented_predecessor_offsets b' = decremented_predecessor_offsets b @ [t] \<and>
         in_peeled_iteration b'"
proof -
  have ib: "in_bounds t (predecessors b)" "in_bounds t (merge_states b)"
    using assms(2) by (auto simp: MergeDeadIntoFrameState_def split: if_splits)
  show ?thesis
    using assms ib
    by (cases "merge_states b ! nat t")
       (auto simp: MergeDeadIntoFrameState_def Let_def decrement_at_def split: if_splits)
qed

lemma MergeDeadLoopIntoFrameState_effect:
  assumes "in_peeled_iteration b" and "MergeDeadLoopIntoFrameState ms b t = Inr b'"
  shows "b' = b \<or>
         (in_bounds t (predecessors b) \<and> predecessors b' = decrement_at t (predecessors b) \<and>
          decremented_predecessor_offsets b' = decremented_predecessor_offsets b @ [t] \<and>
          in_peeled_iteration b')"
proof (cases "merge_states b ! nat t")
  case None
  then show ?thesis using assms(2)
    by (auto simp: MergeDeadLoopIntoFrameState_def split: if_splits)
next
  case (Some m)
  then show ?thesis using assms
    by (auto simp: MergeDeadLoopIntoFrameState_def Let_def decrement_at_def split: if_splits)
qed

lemma length_fold_decrement: "length (fold decrement_at ts p) = length p"
  by (induction ts arbitrary: p) (simp_all add: decrement_at_def)

lemma in_bounds_decrement: "in_bounds t (decrement_at u p) = in_bounds t p"
  by (simp add: in_bounds_def decrement_at_def)

lemma in_bounds_fold_decrement: "in_bounds t (fold decrement_at ts p) = in_bounds t p"
  by (simp add: in_bounds_def length_fold_decrement)

lemma peeled_iteration_effect:
  assumes "in_peeled_iteration b" and "peeled_iteration ms b es = Inr b'"
  shows "\<exists>new. decremented_predecessor_offsets b' = decremented_predecessor_offsets b @ new \<and>
           predecessors b' = fold decrement_at new (predecessors b) \<and>
           (\<forall>t\<in>set new. in_bounds t (predecessors b)) \<and>
           set new \<subseteq> dead_target ` set es"
  using assms
proof (induction ms b es rule: peeled_iteration.induct)
  case (1 ms b)
  then show ?case by simp
next
  case (2 ms b t rest)
  from "2.prems"(2) obtain b1 where s: "MergeDeadIntoFrameState ms b t = Inr b1"
    and r: "peeled_iteration ms b1 rest = Inr b'"
    by (auto split: sum.splits)
  from MergeDeadIntoFrameState_effect[OF "2.prems"(1) s]
  have e: "in_bounds t (predecessors b)" "predecessors b1 = decrement_at t (predecessors b)"
    "decremented_predecessor_offsets b1 = decremented_predecessor_offsets b @ [t]"
    "in_peeled_iteration b1" by auto
  from "2.IH"[OF s e(4) r] obtain new where n:
    "decremented_predecessor_offsets b' = decremented_predecessor_offsets b1 @ new"
    "predecessors b' = fold decrement_at new (predecessors b1)"
    "\<forall>t\<in>set new. in_bounds t (predecessors b1)" "set new \<subseteq> dead_target ` set rest"
    by blast
  show ?case
    by (rule exI[of _ "t # new"]) (use n e in \<open>auto simp: in_bounds_decrement\<close>)
next
  case (3 ms b t rest)
  from "3.prems"(2) obtain b1 where s: "MergeDeadLoopIntoFrameState ms b t = Inr b1"
    and r: "peeled_iteration ms b1 rest = Inr b'"
    by (auto split: sum.splits)
  from MergeDeadLoopIntoFrameState_effect[OF "3.prems"(1) s]
  consider (same) "b1 = b"
    | (dec) "in_bounds t (predecessors b)" "predecessors b1 = decrement_at t (predecessors b)"
      "decremented_predecessor_offsets b1 = decremented_predecessor_offsets b @ [t]"
      "in_peeled_iteration b1" by auto
  then show ?case
  proof cases
    case same
    from "3.IH"[OF s] same "3.prems"(1) r obtain new where n:
      "decremented_predecessor_offsets b' = decremented_predecessor_offsets b @ new"
      "predecessors b' = fold decrement_at new (predecessors b)"
      "\<forall>t\<in>set new. in_bounds t (predecessors b)" "set new \<subseteq> dead_target ` set rest"
      by blast
    show ?thesis by (rule exI[of _ new]) (use n in auto)
  next
    case dec
    from "3.IH"[OF s dec(4) r] obtain new where n:
      "decremented_predecessor_offsets b' = decremented_predecessor_offsets b1 @ new"
      "predecessors b' = fold decrement_at new (predecessors b1)"
      "\<forall>t\<in>set new. in_bounds t (predecessors b1)" "set new \<subseteq> dead_target ` set rest"
      by blast
    show ?thesis
      by (rule exI[of _ "t # new"]) (use n dec in \<open>auto simp: in_bounds_decrement\<close>)
  qed
qed

lemma nth_fold_decrement:
  "\<forall>t\<in>set ts. in_bounds t p \<Longrightarrow> i < length p \<Longrightarrow>
   fold decrement_at ts p ! i = p ! i - of_nat (count_list ts (int i))"
proof (induction ts arbitrary: p)
  case Nil
  then show ?case by simp
next
  case (Cons t ts)
  have t: "0 \<le> t" "nat t < length p" using Cons.prems(1) by (auto simp: in_bounds_def)
  have p1: "\<forall>u\<in>set ts. in_bounds u (decrement_at t p)"
    using Cons.prems(1) by (simp add: in_bounds_decrement)
  have p2: "i < length (decrement_at t p)"
    using Cons.prems(2) by (simp add: decrement_at_def)
  have a: "fold decrement_at (t # ts) p ! i =
        decrement_at t p ! i - of_nat (count_list ts (int i))"
    using Cons.IH[OF p1 p2] by simp
  have b: "decrement_at t p ! i = (if t = int i then p ! i - 1 else p ! i)"
    using t Cons.prems(2) by (auto simp: decrement_at_def nth_list_update)
  show ?case unfolding a b by (cases "t = int i") (simp_all add: algebra_simps)
qed

lemma reset_predecessors_effect:
  "\<forall>t\<in>set ds. loop_header \<le> t \<and> in_bounds t p \<Longrightarrow>
   \<exists>p'. reset_predecessors ds loop_header current p = Inr p' \<and> length p' = length p \<and>
      (\<forall>i<length p. p' ! i =
         p ! i + (if int i \<le> current then of_nat (count_list ds (int i)) else 0))"
proof (induction ds arbitrary: p)
  case Nil
  then show ?case by simp
next
  case (Cons d ds)
  have d: "loop_header \<le> d" "in_bounds d p" "0 \<le> d" "nat d < length p"
    using Cons.prems by (auto simp: in_bounds_def)
  show ?case
  proof (cases "d \<le> current")
    case True
    let ?p = "p[nat d := p ! nat d + 1]"
    have "\<forall>t\<in>set ds. loop_header \<le> t \<and> in_bounds t ?p"
      using Cons.prems by (auto simp: in_bounds_def)
    from Cons.IH[OF this] obtain p' where p':
      "reset_predecessors ds loop_header current ?p = Inr p'" "length p' = length ?p"
      "\<forall>i<length ?p. p' ! i =
         ?p ! i + (if int i \<le> current then of_nat (count_list ds (int i)) else 0)"
      by blast
    have "\<forall>i<length p. p' ! i =
         p ! i + (if int i \<le> current then of_nat (count_list (d # ds) (int i)) else 0)"
    proof (intro allI impI)
      fix i assume i: "i < length p"
      have "?p ! i = (if d = int i then p ! i + 1 else p ! i)"
        using d i by (auto simp: nth_list_update)
      then show "p' ! i =
         p ! i + (if int i \<le> current then of_nat (count_list (d # ds) (int i)) else 0)"
        using p'(3) i True by (auto simp: algebra_simps)
    qed
    then show ?thesis using p' d True by simp
  next
    case False
    have "\<forall>t\<in>set ds. loop_header \<le> t \<and> in_bounds t p" using Cons.prems by auto
    from Cons.IH[OF this] obtain p' where p':
      "reset_predecessors ds loop_header current p = Inr p'" "length p' = length p"
      "\<forall>i<length p. p' ! i =
         p ! i + (if int i \<le> current then of_nat (count_list ds (int i)) else 0)"
      by blast
    have "\<forall>i<length p. p' ! i =
         p ! i + (if int i \<le> current then of_nat (count_list (d # ds) (int i)) else 0)"
      using p'(3) False by auto
    then show ?thesis using p' d False by simp
  qed
qed

lemma count_list_rev: "count_list (rev xs) x = count_list xs x"
  by (induction xs) (simp_all add: count_list_append)


lemma peeling_restores:
  assumes start: "in_peeled_iteration b" "decremented_predecessor_offsets b = []"
    and peel: "peeled_iteration ms b es = Inr b1"
    and targets: "\<forall>e\<in>set es. loop_header \<le> dead_target e"
    and header: "in_bounds loop_header (predecessors b)"
  shows "\<exists>b2. PeelLoop_after_peeled_iteration b1 loop_header jump_loop_offset has_current_block
              = Inr b2 \<and>
           decremented_predecessor_offsets b2 = [] \<and>
           length (predecessors b2) = length (predecessors b) \<and>
           (\<forall>offset. in_bounds offset (predecessors b) \<longrightarrow>
              predecessors b2 ! nat offset =
                (if \<not> has_current_block \<and> offset = loop_header then 0
                 else if offset \<le> jump_loop_offset then predecessors b ! nat offset
                 else predecessors b1 ! nat offset))"
proof -
  let ?p = "predecessors b"
  from peeled_iteration_effect[OF start(1) peel] start(2)
  obtain ds where ds: "decremented_predecessor_offsets b1 = ds"
    "predecessors b1 = fold decrement_at ds ?p"
    "\<forall>t\<in>set ds. in_bounds t ?p" "set ds \<subseteq> dead_target ` set es"
    by auto
  have len1: "length (predecessors b1) = length ?p"
    by (simp add: ds(2) length_fold_decrement)
  have "\<forall>t\<in>set (rev ds). loop_header \<le> t \<and> in_bounds t (predecessors b1)"
    using ds(3,4) targets by (auto simp: ds(2) in_bounds_fold_decrement)
  from reset_predecessors_effect[OF this, of jump_loop_offset]
  obtain p' where p': "reset_predecessors (rev ds) loop_header jump_loop_offset (predecessors b1)
        = Inr p'" "length p' = length (predecessors b1)"
    "\<forall>i<length (predecessors b1). p' ! i = predecessors b1 ! i +
        (if int i \<le> jump_loop_offset then of_nat (count_list (rev ds) (int i)) else 0)"
    by blast
  have val: "p' ! nat offset =
      (if offset \<le> jump_loop_offset then ?p ! nat offset else predecessors b1 ! nat offset)"
    if o: "in_bounds offset ?p" for offset
  proof -
    have i: "nat offset < length ?p" "int (nat offset) = offset"
      using o by (auto simp: in_bounds_def)
    have "predecessors b1 ! nat offset = ?p ! nat offset - of_nat (count_list ds offset)"
      using nth_fold_decrement[OF ds(3) i(1)] i(2) by (simp add: ds(2))
    moreover have "p' ! nat offset = predecessors b1 ! nat offset +
        (if offset \<le> jump_loop_offset then of_nat (count_list ds offset) else 0)"
      using p'(3) i len1 by (simp add: count_list_rev)
    ultimately show ?thesis by simp
  qed
  let ?b1 = "b1\<lparr>in_peeled_iteration := False, predecessors := p',
                  decremented_predecessor_offsets := []\<rparr>"
  show ?thesis
  proof (cases has_current_block)
    case True
    have "PeelLoop_after_peeled_iteration b1 loop_header jump_loop_offset has_current_block
            = Inr ?b1"
      using True p'(1) ds(1) by (simp add: PeelLoop_after_peeled_iteration_def)
    then show ?thesis using True val p'(2) len1 by simp
  next
    case False
    let ?b2 = "?b1\<lparr>predecessors := p'[nat loop_header := 0]\<rparr>"
    have h: "in_bounds loop_header p'" using header p'(2) len1 by (simp add: in_bounds_def)
    have "PeelLoop_after_peeled_iteration b1 loop_header jump_loop_offset has_current_block
            = Inr ?b2"
      using False p'(1) ds(1) h by (simp add: PeelLoop_after_peeled_iteration_def)
    moreover have "\<forall>offset. in_bounds offset ?p \<longrightarrow>
        p'[nat loop_header := 0] ! nat offset =
          (if offset = loop_header then 0
           else if offset \<le> jump_loop_offset then ?p ! nat offset
           else predecessors b1 ! nat offset)"
    proof (intro allI impI)
      fix offset assume o: "in_bounds offset ?p"
      then have "nat offset = nat loop_header \<longleftrightarrow> offset = loop_header"
        using header by (auto simp: in_bounds_def)
      then show "p'[nat loop_header := 0] ! nat offset =
          (if offset = loop_header then 0
           else if offset \<le> jump_loop_offset then ?p ! nat offset
           else predecessors b1 ! nat offset)"
        using val[OF o] h o p'(2) len1 by (auto simp: in_bounds_def nth_list_update)
    qed
    ultimately show ?thesis using False p'(2) len1 by simp
  qed
qed

text \<open>
  Claim C4, amended. Start a peeled iteration with no recorded decrement, and let it
  merge dead edges into offsets that are not before the loop header. When \<open>PeelLoop\<close>
  then resets the builder, it returns, the vector of decremented offsets is empty, and
  every predecessor count is back at its value from before the peeled iteration if its
  offset is at or before the \<^verbatim>\<open>JumpLoop\<close> (inside the peeled loop), and keeps the value the
  peeled iteration left if its offset lies beyond the \<^verbatim>\<open>JumpLoop\<close>; only the count of the
  loop header is set to zero when the peeled iteration ended without a current block.
\<close>

theorem PeelLoop_restores_predecessors_up_to_JumpLoop:
  "in_peeled_iteration b \<and> decremented_predecessor_offsets b = [] \<and>
   peeled_iteration ms b es = Inr b1 \<and>
   (\<forall>e\<in>set es. loop_header \<le> dead_target e) \<and>
   in_bounds loop_header (predecessors b) \<longrightarrow>
   (\<exists>b2. PeelLoop_after_peeled_iteration b1 loop_header jump_loop_offset has_current_block
              = Inr b2 \<and>
         decremented_predecessor_offsets b2 = [] \<and>
         length (predecessors b2) = length (predecessors b) \<and>
         (\<forall>offset. in_bounds offset (predecessors b) \<longrightarrow>
            predecessors b2 ! nat offset =
              (if \<not> has_current_block \<and> offset = loop_header then 0
               else if offset \<le> jump_loop_offset then predecessors b ! nat offset
               else predecessors b1 ! nat offset)))"
  using peeling_restores by blast

lemma peeling_example_iteration:
  "peeled_iteration no_methods peeling_start peeling_dead_merges = Inr peeling_after_iteration"
  by (simp add: peeling_start_def peeling_dead_merges_def peeling_after_iteration_def
        no_methods_def MergeDeadIntoFrameState_def in_bounds_def Let_def)

lemma peeling_example_reset:
  "PeelLoop_after_peeled_iteration peeling_after_iteration 1 4 True = Inr peeling_after_reset"
  by (simp add: peeling_start_def peeling_after_iteration_def peeling_after_reset_def
        PeelLoop_after_peeled_iteration_def in_bounds_def)

theorem PeelLoop_restores_witness:
  "in_peeled_iteration peeling_start \<and> decremented_predecessor_offsets peeling_start = [] \<and>
   peeled_iteration no_methods peeling_start peeling_dead_merges = Inr peeling_after_iteration \<and>
   list_all (\<lambda>e. 1 \<le> dead_target e) peeling_dead_merges \<and>
   in_bounds 1 (predecessors peeling_start) \<and>
   PeelLoop_after_peeled_iteration peeling_after_iteration 1 4 True = Inr peeling_after_reset \<and>
   predecessors peeling_after_reset ! nat 1 = predecessors peeling_start ! nat 1 \<and>
   predecessors peeling_after_reset ! nat 6 = predecessors peeling_after_iteration ! nat 6"
proof -
  have a: "in_peeled_iteration peeling_start" "decremented_predecessor_offsets peeling_start = []"
    by (simp_all add: peeling_start_def)
  have t: "\<forall>e\<in>set peeling_dead_merges. 1 \<le> dead_target e"
    by (simp add: peeling_dead_merges_def)
  have h: "in_bounds 1 (predecessors peeling_start)" "in_bounds 6 (predecessors peeling_start)"
    by (simp_all add: peeling_start_def in_bounds_def)
  from PeelLoop_restores_predecessors_up_to_JumpLoop[of peeling_start no_methods
      peeling_dead_merges peeling_after_iteration 1 4 True]
    a t h peeling_example_iteration
  obtain b2 where b2: "PeelLoop_after_peeled_iteration peeling_after_iteration 1 4 True = Inr b2"
    "\<forall>offset. in_bounds offset (predecessors peeling_start) \<longrightarrow>
        predecessors b2 ! nat offset =
          (if \<not> True \<and> offset = 1 then 0
           else if offset \<le> 4 then predecessors peeling_start ! nat offset
           else predecessors peeling_after_iteration ! nat offset)"
    by blast
  from b2(1) have e: "b2 = peeling_after_reset" by (simp add: peeling_example_reset)
  from b2(2)[rule_format, OF h(1)] b2(2)[rule_format, OF h(2)]
  show ?thesis
    using a t h peeling_example_iteration peeling_example_reset
    by (simp add: e list_all_iff)
qed

text \<open>
  The claim as worded has the two cases the wrong way round. After the dead merges into
  the loop header (offset 1) and into offset 6, beyond the \<^verbatim>\<open>JumpLoop\<close> at offset 4 (and
  beyond the loop header, where the builder resumes), both counts are 1. The reset puts
  the count of offset 1 back to 2 and leaves the count of offset 6 at 1.
\<close>

theorem PeelLoop_restores_counterexample:
  "peeled_iteration no_methods peeling_start peeling_dead_merges = Inr peeling_after_iteration \<and>
   PeelLoop_after_peeled_iteration peeling_after_iteration 1 4 True = Inr peeling_after_reset \<and>
   predecessors peeling_start = [2, 2, 2, 2, 2, 2, 2, 2] \<and>
   predecessors peeling_after_iteration = [2, 1, 2, 2, 2, 2, 1, 2] \<and>
   predecessors peeling_after_reset = [2, 2, 2, 2, 2, 2, 1, 2]"
  by (simp add: peeling_example_iteration peeling_example_reset)
     (simp add: peeling_start_def peeling_after_iteration_def peeling_after_reset_def)


section \<open>The conversions are memoized\<close>

lemma Record_recorded: "hint_recorded (RecordUseReprHintIfPhi s v h) v h"
  by (simp add: hint_recorded_def RecordUseReprHintIfPhi_def)

lemma Record_noop: "hint_recorded s v h \<Longrightarrow> RecordUseReprHintIfPhi s v h = s"
  by (auto simp: hint_recorded_def RecordUseReprHintIfPhi_def List.insert_def)

lemma Record_kna [simp]:
  "known_node_aspects (RecordUseReprHintIfPhi s v h) = known_node_aspects s"
  "int32_constants (RecordUseReprHintIfPhi s v h) = int32_constants s"
  "float64_constants (RecordUseReprHintIfPhi s v h) = float64_constants s"
  "graph_nodes (RecordUseReprHintIfPhi s v h) = graph_nodes s"
  by (simp_all add: RecordUseReprHintIfPhi_def)

lemma GetOrCreate_lookup [simp]:
  "known_node_aspects (snd (GetOrCreateInfoFor E s v)) (node_id v)
     = Some (fst (GetOrCreateInfoFor E s v))"
  by (simp add: GetOrCreateInfoFor_def split: option.splits)

lemma GetOrCreate_hints [simp]:
  "use_repr_hints (snd (GetOrCreateInfoFor E s v)) = use_repr_hints s"
  "graph_nodes (snd (GetOrCreateInfoFor E s v)) = graph_nodes s"
  by (simp_all add: GetOrCreateInfoFor_def split: option.splits)

lemma GetOrCreate_existing:
  "known_node_aspects s (node_id v) = Some i \<Longrightarrow> GetOrCreateInfoFor E s v = (i, s)"
  by (simp add: GetOrCreateInfoFor_def)

lemma GetOrCreate_other:
  "known_node_aspects s k \<noteq> None \<Longrightarrow> known_node_aspects (snd (GetOrCreateInfoFor E s v)) k \<noteq> None"
  by (simp add: GetOrCreateInfoFor_def split: option.splits)

lemma AddNewNode_frame [simp]:
  "known_node_aspects (snd (AddNewNode s n)) = known_node_aspects s"
  "use_repr_hints (snd (AddNewNode s n)) = use_repr_hints s"
  "graph_nodes (snd (AddNewNode s n)) = graph_nodes s @ [fst (AddNewNode s n)]"
  by (simp_all add: AddNewNode_def Let_def)

lemma update_info_frame [simp]:
  "use_repr_hints (update_info s v f) = use_repr_hints s"
  "graph_nodes (update_info s v f) = graph_nodes s"
  by (simp_all add: update_info_def split: option.splits)

lemma update_info_lookup:
  "known_node_aspects s (node_id v) = Some i \<Longrightarrow>
   known_node_aspects (update_info s v f) (node_id v) = Some (f i)"
  by (simp add: update_info_def)

lemma update_info_exists:
  "known_node_aspects s k \<noteq> None \<Longrightarrow> known_node_aspects (update_info s v f) k \<noteq> None"
  by (simp add: update_info_def split: option.splits)

lemma hint_recorded_cong:
  "use_repr_hints s' = use_repr_hints s \<Longrightarrow> hint_recorded s' v h = hint_recorded s v h"
  by (simp add: hint_recorded_def)

lemma hint_recorded_frame [simp]:
  "hint_recorded (snd (GetOrCreateInfoFor E s w)) v h = hint_recorded s v h"
  "hint_recorded (snd (AddNewNode s n)) v h = hint_recorded s v h"
  "hint_recorded (update_info s w f) v h = hint_recorded s v h"
  by (simp_all add: hint_recorded_def)

text \<open>A request that finds the cached alternative.\<close>

lemma GetTaggedValue_hit:
  assumes "value_representation v \<noteq> kTagged"
    and "known_node_aspects s (node_id v) = Some i" and "alternative_tagged i = Some a"
    and "h = kRecord \<longrightarrow> hint_recorded s v kUseTagged"
  shows "GetTaggedValue E s v h = Inr (a, s)"
proof -
  have "(if h = kRecord then RecordUseReprHintIfPhi s v kUseTagged else s) = s"
    using assms(4) by (simp add: Record_noop)
  then show ?thesis
    using assms(1,2,3) by (simp add: GetTaggedValue_def GetOrCreate_existing)
qed

lemma set_tagged_cached:
  assumes "known_node_aspects s (node_id v) \<noteq> None"
  shows "\<exists>i. known_node_aspects (snd (set_tagged v (AddNewNode s n))) (node_id v) = Some i \<and>
             alternative_tagged i = Some (fst (set_tagged v (AddNewNode s n)))"
  using assms by (auto simp: set_tagged_def update_info_lookup)

lemma set_tagged_hints [simp]:
  "use_repr_hints (snd (set_tagged v (AddNewNode s n))) = use_repr_hints s"
  by (simp add: set_tagged_def)

lemma GetTaggedValue_post:
  assumes "GetTaggedValue E s v h = Inr (n, s1)" and "value_representation v \<noteq> kTagged"
  shows "(\<exists>i. known_node_aspects s1 (node_id v) = Some i \<and> alternative_tagged i = Some n) \<and>
         (h = kRecord \<longrightarrow> hint_recorded s1 v kUseTagged)"
proof -
  define s0 where "s0 = (if h = kRecord then RecordUseReprHintIfPhi s v kUseTagged else s)"
  define g where "g = GetOrCreateInfoFor E s0 v"
  have r1: "h = kRecord \<longrightarrow> hint_recorded (snd g) v kUseTagged"
    by (simp add: g_def s0_def Record_recorded)
  have e: "known_node_aspects (snd g) (node_id v) = Some (fst g)" by (simp add: g_def)
  have eq: "GetTaggedValue E s v h =
    (case alternative_tagged (fst g) of
       Some alt \<Rightarrow> Inr (alt, snd g)
     | None \<Rightarrow>
        (case value_representation v of
           kInt32 \<Rightarrow>
             if NodeTypeIsSmi E (info_type (fst g))
             then Inr (set_tagged v
                    (AddNewNode (snd g) (new_node 0 ''kUnsafeSmiTag'' kTagged [node_id v])))
             else Inr (set_tagged v
                    (AddNewNode (snd g) (new_node 0 ''kInt32ToNumber'' kTagged [node_id v])))
         | kUint32 \<Rightarrow>
             if NodeTypeIsSmi E (info_type (fst g))
             then Inr (set_tagged v
                    (AddNewNode (snd g) (new_node 0 ''kUnsafeSmiTag'' kTagged [node_id v])))
             else Inr (set_tagged v
                    (AddNewNode (snd g) (new_node 0 ''kUint32ToNumber'' kTagged [node_id v])))
         | kFloat64 \<Rightarrow>
             Inr (set_tagged v
               (AddNewNode (snd g) (new_node 0 ''kFloat64ToTagged'' kTagged [node_id v])))
         | kHoleyFloat64 \<Rightarrow>
             Inr (set_tagged v
               (AddNewNode (snd g) (new_node 0 ''kHoleyFloat64ToTagged'' kTagged [node_id v])))
         | kTagged \<Rightarrow> Inl UNREACHABLE_hit
         | kWord64 \<Rightarrow> Inl UNREACHABLE_hit))"
    using assms(2) unfolding GetTaggedValue_def Let_def split_def s0_def[symmetric] g_def[symmetric]
    by simp
  show ?thesis
  proof (cases "alternative_tagged (fst g)")
    case (Some a)
    then have "n = a" "s1 = snd g" using assms(1) unfolding eq by simp_all
    then show ?thesis using e Some r1 by simp
  next
    case None
    have "\<exists>node. set_tagged v (AddNewNode (snd g) node) = (n, s1)"
      using assms(1) None unfolding eq
      by (cases "value_representation v") (auto split: if_splits)
    then obtain node where res: "set_tagged v (AddNewNode (snd g) node) = (n, s1)" by blast
    have ne: "known_node_aspects (snd g) (node_id v) \<noteq> None" using e by simp
    from set_tagged_cached[OF ne, of node] res
    have "\<exists>i. known_node_aspects s1 (node_id v) = Some i \<and> alternative_tagged i = Some n"
      by simp
    moreover have "use_repr_hints s1 = use_repr_hints (snd g)"
      using res set_tagged_hints[of v "snd g" node] by simp
    ultimately show ?thesis using r1 hint_recorded_cong[of s1 "snd g" v kUseTagged] by simp
  qed
qed

lemma GetTaggedValue_memo:
  assumes "GetTaggedValue E s v h = Inr (n, s1)"
  shows "GetTaggedValue E s1 v h = Inr (n, s1)"
proof (cases "value_representation v = kTagged")
  case True
  then have r: "n = v" "s1 = (if h = kRecord then RecordUseReprHintIfPhi s v kUseTagged else s)"
    using assms by (simp_all add: GetTaggedValue_def Let_def)
  have "(if h = kRecord then RecordUseReprHintIfPhi s1 v kUseTagged else s1) = s1"
    using r(2) by (simp add: Record_noop Record_recorded)
  then show ?thesis using True r(1) by (simp add: GetTaggedValue_def Let_def)
next
  case False
  from GetTaggedValue_post[OF assms False] obtain i where
    "known_node_aspects s1 (node_id v) = Some i" "alternative_tagged i = Some n"
    "h = kRecord \<longrightarrow> hint_recorded s1 v kUseTagged" by blast
  then show ?thesis using False by (intro GetTaggedValue_hit)
qed

lemma GetTaggedValue_returns:
  assumes "value_representation v \<noteq> kWord64"
  shows "\<exists>n s1. GetTaggedValue E s v h = Inr (n, s1)"
  using assms
  by (cases "value_representation v")
     (auto simp: GetTaggedValue_def Let_def split_def split: option.splits)

text \<open>The frame of the type helpers: they keep entries and recorded hints.\<close>

lemma has_info_frame [simp]:
  "has_info s k \<Longrightarrow> has_info (snd (GetOrCreateInfoFor E s v)) k"
  "has_info (snd (AddNewNode s n)) k = has_info s k"
  "has_info s k \<Longrightarrow> has_info (update_info s v f) k"
  "has_info (snd (GetOrCreateInfoFor E s v)) (node_id v)"
  by (simp_all add: has_info_def GetOrCreate_other update_info_exists)

lemma EnsureType_frame:
  assumes "EnsureType E s v t = Inr (b, old, s')"
  shows "use_repr_hints s' = use_repr_hints s"
    and "has_info s k \<Longrightarrow> has_info s' k"
proof -
  obtain ok st where c: "CheckStaticType E v t = Inr (ok, st)"
    using assms by (cases "CheckStaticType E v t") (auto simp: EnsureType_def bind_result_def)
  let ?g = "GetOrCreateInfoFor E s v"
  from assms c have d: "s' = s \<or> s' = snd ?g \<or>
      s' = update_info (snd ?g) v (\<lambda>i. i\<lparr>info_type := CombineType E (info_type i) t\<rparr>)"
    by (auto simp: EnsureType_def bind_result_def Let_def split_def split: if_splits)
  from d show "use_repr_hints s' = use_repr_hints s" by auto
  from d show "has_info s k \<Longrightarrow> has_info s' k" by auto
qed

lemma BuildSmiUntag_frame:
  assumes "BuildSmiUntag E s v = Inr (c, s')"
  shows "use_repr_hints s' = use_repr_hints s"
    and "has_info s k \<Longrightarrow> has_info s' k"
proof -
  obtain b old s1 where e: "EnsureType E s v (NodeType_kSmi E) = Inr (b, old, s1)"
    using assms by (cases "EnsureType E s v (NodeType_kSmi E)")
      (auto simp: BuildSmiUntag_def bind_result_def)
  from assms e have "\<exists>node. AddNewNode s1 node = (c, s')"
    by (auto simp: BuildSmiUntag_def bind_result_def split: if_splits)
  then obtain node where "AddNewNode s1 node = (c, s')" by blast
  then have s': "s' = snd (AddNewNode s1 node)" by simp
  show "use_repr_hints s' = use_repr_hints s"
    using EnsureType_frame(1)[OF e] by (simp add: s')
  show "has_info s k \<Longrightarrow> has_info s' k"
    using EnsureType_frame(2)[OF e] by (simp add: s')
qed

lemma BuildNumberOrOddballToFloat64_frame:
  assumes "BuildNumberOrOddballToFloat64 E s v conv = Inr (c, s')"
  shows "use_repr_hints s' = use_repr_hints s"
    and "has_info s k \<Longrightarrow> has_info s' k"
proof -
  let ?t = "TaggedToFloat64ConversionTypeToNodeType E conv"
  obtain b old s1 where e: "EnsureType E s v ?t = Inr (b, old, s1)"
    using assms by (cases "EnsureType E s v ?t")
      (auto simp: BuildNumberOrOddballToFloat64_def bind_result_def)
  from assms e have "(\<exists>node. AddNewNode s1 node = (c, s')) \<or>
      (\<exists>node node'. AddNewNode (snd (AddNewNode s1 node)) node' = (c, s'))"
    unfolding BuildNumberOrOddballToFloat64_def bind_result_def Let_def split_def
    by (simp split: if_splits) blast+
  then have s': "(\<exists>node. s' = snd (AddNewNode s1 node)) \<or>
      (\<exists>node node'. s' = snd (AddNewNode (snd (AddNewNode s1 node)) node'))"
    by (metis snd_conv)
  show "use_repr_hints s' = use_repr_hints s"
    using EnsureType_frame(1)[OF e] s' by auto
  show "has_info s k \<Longrightarrow> has_info s' k"
    using EnsureType_frame(2)[OF e] s' by auto
qed

lemma GetInt32Constant_memo:
  "GetInt32Constant s c = (n, s1) \<Longrightarrow> GetInt32Constant s1 c = (n, s1)"
  by (auto simp: GetInt32Constant_def Let_def split: option.splits)

lemma GetInt32Constant_hints:
  "GetInt32Constant s c = (n, s1) \<Longrightarrow> use_repr_hints s1 = use_repr_hints s"
  by (auto simp: GetInt32Constant_def Let_def split: option.splits)

lemma GetFloat64Constant_memo:
  "GetFloat64Constant s c = (n, s1) \<Longrightarrow> GetFloat64Constant s1 c = (n, s1)"
  by (auto simp: GetFloat64Constant_def Let_def split: option.splits)

lemma GetFloat64Constant_hints:
  "GetFloat64Constant s c = (n, s1) \<Longrightarrow> use_repr_hints s1 = use_repr_hints s"
  by (auto simp: GetFloat64Constant_def Let_def split: option.splits)

lemma set_int32_cached:
  assumes "has_info s' (node_id v)"
  shows "\<exists>i. known_node_aspects (snd (set_int32 v (c, s'))) (node_id v) = Some i \<and>
             alternative_int32 i = Some (fst (set_int32 v (c, s')))"
  using assms by (auto simp: set_int32_def update_info_lookup has_info_def)

lemma set_float64_cached:
  assumes "has_info s' (node_id v)"
  shows "\<exists>i. known_node_aspects (snd (set_float64 v (c, s'))) (node_id v) = Some i \<and>
             alternative_float64 i = Some (fst (set_float64 v (c, s')))"
  using assms by (auto simp: set_float64_def update_info_lookup has_info_def)

lemma set_hints [simp]:
  "use_repr_hints (snd (set_int32 v r)) = use_repr_hints (snd r)"
  "use_repr_hints (snd (set_float64 v r)) = use_repr_hints (snd r)"
  by (simp_all add: set_int32_def set_float64_def)

lemma GetInt32_folded:
  assumes "value_representation v \<noteq> kInt32" and "int32_folded E v"
  shows "GetInt32 E s v =
     Inr (GetInt32Constant (RecordUseReprHintIfPhi s v kUseInt32) (int32_folded_value E v))"
proof (cases "opcode v = ''kSmiConstant''")
  case True
  then show ?thesis using assms(1) by (simp add: GetInt32_def Let_def int32_folded_value_def)
next
  case False
  then have "opcode v = ''kFloat64Constant'' \<and> IsSmiDouble E (float64_bits v)"
    using assms(2) by (simp add: int32_folded_def)
  then show ?thesis
    using assms(1) False by (simp add: GetInt32_def Let_def int32_folded_value_def)
qed

lemma GetInt32_not_folded:
  assumes "value_representation v \<noteq> kInt32" and "\<not> int32_folded E v"
  shows "GetInt32 E s v =
    (case alternative_int32
            (fst (GetOrCreateInfoFor E (RecordUseReprHintIfPhi s v kUseInt32) v)) of
       Some alt \<Rightarrow>
         Inr (alt, snd (GetOrCreateInfoFor E (RecordUseReprHintIfPhi s v kUseInt32) v))
     | None \<Rightarrow>
        (case value_representation v of
           kTagged \<Rightarrow>
             bind_result
               (BuildSmiUntag E
                  (snd (GetOrCreateInfoFor E (RecordUseReprHintIfPhi s v kUseInt32) v)) v)
               (\<lambda>r. Inr (set_int32 v r))
         | kUint32 \<Rightarrow>
             if NodeTypeIsSmi E (info_type
                  (fst (GetOrCreateInfoFor E (RecordUseReprHintIfPhi s v kUseInt32) v)))
             then Inr (set_int32 v
                    (AddNewNode
                       (snd (GetOrCreateInfoFor E (RecordUseReprHintIfPhi s v kUseInt32) v))
                       (new_node 0 ''kTruncateUint32ToInt32'' kInt32 [node_id v])))
             else Inr (set_int32 v
                    (AddNewNode
                       (snd (GetOrCreateInfoFor E (RecordUseReprHintIfPhi s v kUseInt32) v))
                       (new_node 0 ''kCheckedUint32ToInt32'' kInt32 [node_id v])))
         | kFloat64 \<Rightarrow>
             Inr (set_int32 v
               (AddNewNode
                  (snd (GetOrCreateInfoFor E (RecordUseReprHintIfPhi s v kUseInt32) v))
                  (new_node 0 ''kCheckedTruncateFloat64ToInt32'' kInt32 [node_id v])))
         | kHoleyFloat64 \<Rightarrow>
             Inr (set_int32 v
               (AddNewNode
                  (snd (GetOrCreateInfoFor E (RecordUseReprHintIfPhi s v kUseInt32) v))
                  (new_node 0 ''kCheckedTruncateFloat64ToInt32'' kInt32 [node_id v])))
         | kInt32 \<Rightarrow> Inl UNREACHABLE_hit
         | kWord64 \<Rightarrow> Inl UNREACHABLE_hit))"
proof -
  have a: "opcode v \<noteq> ''kSmiConstant''"
    "\<not> (opcode v = ''kFloat64Constant'' \<and> IsSmiDouble E (float64_bits v))"
    using assms(2) by (simp_all add: int32_folded_def)
  show ?thesis
    unfolding GetInt32_def Let_def split_def
    by (simp only: assms(1) a if_False)
qed

lemma GetInt32_hit:
  assumes "value_representation v \<noteq> kInt32" and "\<not> int32_folded E v"
    and "known_node_aspects s (node_id v) = Some i" and "alternative_int32 i = Some a"
    and "hint_recorded s v kUseInt32"
  shows "GetInt32 E s v = Inr (a, s)"
  unfolding GetInt32_not_folded[OF assms(1,2)]
  using assms(3,4,5) by (simp add: Record_noop GetOrCreate_existing)

lemma GetInt32_post:
  assumes "GetInt32 E s v = Inr (n, s1)" and "value_representation v \<noteq> kInt32"
    and "\<not> int32_folded E v"
  shows "(\<exists>i. known_node_aspects s1 (node_id v) = Some i \<and> alternative_int32 i = Some n) \<and>
         hint_recorded s1 v kUseInt32"
proof -
  define s0 where "s0 = RecordUseReprHintIfPhi s v kUseInt32"
  define g where "g = GetOrCreateInfoFor E s0 v"
  have r1: "hint_recorded (snd g) v kUseInt32"
    by (simp add: g_def s0_def Record_recorded)
  have e: "known_node_aspects (snd g) (node_id v) = Some (fst g)" by (simp add: g_def)
  have eq: "GetInt32 E s v =
    (case alternative_int32 (fst g) of
       Some alt \<Rightarrow> Inr (alt, snd g)
     | None \<Rightarrow>
        (case value_representation v of
           kTagged \<Rightarrow> bind_result (BuildSmiUntag E (snd g) v) (\<lambda>r. Inr (set_int32 v r))
         | kUint32 \<Rightarrow>
             if NodeTypeIsSmi E (info_type (fst g))
             then Inr (set_int32 v
                    (AddNewNode (snd g) (new_node 0 ''kTruncateUint32ToInt32'' kInt32 [node_id v])))
             else Inr (set_int32 v
                    (AddNewNode (snd g) (new_node 0 ''kCheckedUint32ToInt32'' kInt32 [node_id v])))
         | kFloat64 \<Rightarrow>
             Inr (set_int32 v
               (AddNewNode (snd g)
                  (new_node 0 ''kCheckedTruncateFloat64ToInt32'' kInt32 [node_id v])))
         | kHoleyFloat64 \<Rightarrow>
             Inr (set_int32 v
               (AddNewNode (snd g)
                  (new_node 0 ''kCheckedTruncateFloat64ToInt32'' kInt32 [node_id v])))
         | kInt32 \<Rightarrow> Inl UNREACHABLE_hit
         | kWord64 \<Rightarrow> Inl UNREACHABLE_hit))"
    unfolding GetInt32_not_folded[OF assms(2,3)] s0_def[symmetric] g_def[symmetric] ..
  show ?thesis
  proof (cases "alternative_int32 (fst g)")
    case (Some a)
    then have "n = a" "s1 = snd g" using assms(1) unfolding eq by simp_all
    then show ?thesis using e Some r1 by simp
  next
    case None
    have hg: "has_info (snd g) (node_id v)" by (simp add: g_def)
    have "\<exists>c s'. set_int32 v (c, s') = (n, s1) \<and> use_repr_hints s' = use_repr_hints (snd g) \<and>
            has_info s' (node_id v)"
    proof (cases "value_representation v = kTagged")
      case True
      then obtain c s' where b: "BuildSmiUntag E (snd g) v = Inr (c, s')"
        and r: "set_int32 v (c, s') = (n, s1)"
        using assms(1) None unfolding eq
        by (cases "BuildSmiUntag E (snd g) v") (auto simp: bind_result_def)
      show ?thesis
        using r BuildSmiUntag_frame[OF b] hg by auto
    next
      case False
      have "\<exists>node. set_int32 v (AddNewNode (snd g) node) = (n, s1)"
        using assms(1) None False unfolding eq
        by (cases "value_representation v") (auto split: if_splits)
      then obtain node where r: "set_int32 v (AddNewNode (snd g) node) = (n, s1)" by blast
      show ?thesis
        by (rule exI[of _ "fst (AddNewNode (snd g) node)"],
            rule exI[of _ "snd (AddNewNode (snd g) node)"]) (use r hg in simp)
    qed
    then obtain c s' where r: "set_int32 v (c, s') = (n, s1)"
      "use_repr_hints s' = use_repr_hints (snd g)"
      "has_info s' (node_id v)" by blast
    from set_int32_cached[OF r(3), of c] r(1)
    have "\<exists>i. known_node_aspects s1 (node_id v) = Some i \<and> alternative_int32 i = Some n"
      by simp
    moreover have "use_repr_hints s1 = use_repr_hints (snd g)"
      using r(1,2) set_hints(1)[of v "(c, s')"] by simp
    ultimately show ?thesis using r1 hint_recorded_cong[of s1 "snd g" v kUseInt32] by simp
  qed
qed

lemma GetInt32_memo:
  assumes "GetInt32 E s v = Inr (n, s1)"
  shows "GetInt32 E s1 v = Inr (n, s1)"
proof -
  consider (same) "value_representation v = kInt32"
    | (folded) "value_representation v \<noteq> kInt32" "int32_folded E v"
    | (cached) "value_representation v \<noteq> kInt32" "\<not> int32_folded E v" by blast
  then show ?thesis
  proof cases
    case same
    then have r: "n = v" "s1 = RecordUseReprHintIfPhi s v kUseInt32"
      using assms by (auto simp: GetInt32_def Let_def)
    have "RecordUseReprHintIfPhi s1 v kUseInt32 = s1"
      using r(2) by (simp add: Record_noop Record_recorded)
    then show ?thesis using same r(1) by (simp add: GetInt32_def Let_def)
  next
    case folded
    define c where "c = int32_folded_value E v"
    have eq: "\<And>t. GetInt32 E t v = Inr (GetInt32Constant (RecordUseReprHintIfPhi t v kUseInt32) c)"
      unfolding c_def by (rule GetInt32_folded[OF folded])
    from assms have g: "GetInt32Constant (RecordUseReprHintIfPhi s v kUseInt32) c = (n, s1)"
      unfolding eq by simp
    have "hint_recorded s1 v kUseInt32"
      using hint_recorded_cong[OF GetInt32Constant_hints[OF g], of v kUseInt32]
      by (simp add: Record_recorded)
    then have "RecordUseReprHintIfPhi s1 v kUseInt32 = s1" by (rule Record_noop)
    then show ?thesis unfolding eq using GetInt32Constant_memo[OF g] by simp
  next
    case cached
    from GetInt32_post[OF assms cached] obtain i where
      "known_node_aspects s1 (node_id v) = Some i" "alternative_int32 i = Some n"
      "hint_recorded s1 v kUseInt32" by blast
    then show ?thesis using cached by (intro GetInt32_hit)
  qed
qed

lemma StaticTypeForNode_returns:
  "value_representation v \<noteq> kWord64 \<Longrightarrow> \<exists>t. StaticTypeForNode E v = Inr t"
  by (cases "value_representation v")
     (auto simp: StaticTypeForNode_def TryGetConstant_static_def split: FieldRepresentation.splits)

lemma EnsureType_returns:
  "value_representation v \<noteq> kWord64 \<Longrightarrow> \<exists>b old s'. EnsureType E s v t = Inr (b, old, s')"
  using StaticTypeForNode_returns[of v E]
  by (auto simp: EnsureType_def CheckStaticType_def bind_result_def Let_def split_def)

lemma BuildSmiUntag_returns:
  "value_representation v \<noteq> kWord64 \<Longrightarrow> \<exists>c s'. BuildSmiUntag E s v = Inr (c, s')"
  using EnsureType_returns[of v E s "NodeType_kSmi E"]
  by (auto simp: BuildSmiUntag_def bind_result_def prod_eq_iff)

lemma GetInt32_returns:
  assumes "value_representation v \<noteq> kWord64"
  shows "\<exists>n s1. GetInt32 E s v = Inr (n, s1)"
proof -
  consider (same) "value_representation v = kInt32"
    | (folded) "value_representation v \<noteq> kInt32" "int32_folded E v"
    | (cached) "value_representation v \<noteq> kInt32" "\<not> int32_folded E v" by blast
  then show ?thesis
  proof cases
    case same
    then show ?thesis by (simp add: GetInt32_def Let_def)
  next
    case folded
    show ?thesis unfolding GetInt32_folded[OF folded] by (simp add: prod_eq_iff)
  next
    case cached
    define g where "g = GetOrCreateInfoFor E (RecordUseReprHintIfPhi s v kUseInt32) v"
    show ?thesis
    proof (cases "alternative_int32 (fst g)")
      case (Some a)
      then show ?thesis
        unfolding GetInt32_not_folded[OF cached] g_def[symmetric] by simp
    next
      case None
      show ?thesis
      proof (cases "value_representation v = kTagged")
        case True
        from BuildSmiUntag_returns[OF assms, of E "snd g"]
        obtain c s' where "BuildSmiUntag E (snd g) v = Inr (c, s')" by blast
        then show ?thesis
          unfolding GetInt32_not_folded[OF cached] g_def[symmetric]
          using None True by (simp add: bind_result_def prod_eq_iff)
      next
        case False
        then show ?thesis
          unfolding GetInt32_not_folded[OF cached] g_def[symmetric]
          using None assms cached(1)
          by (cases "value_representation v") (simp_all add: prod_eq_iff)
      qed
    qed
  qed
qed

lemma GetFloat64_folded:
  assumes "value_representation v \<noteq> kFloat64" and "float64_folded E v"
  shows "GetFloat64ForToNumber E s v kDisallowToNumber =
     Inr (GetFloat64Constant s (float64_folded_value E v))"
proof -
  consider (c) "opcode v = ''kConstant''" "IsHeapNumber E (constant_object v)"
    | (smi) "opcode v = ''kSmiConstant''" | (i) "opcode v = ''kInt32Constant''"
    | (r) "opcode v = ''kRootConstant''" "IsHeapNumber E (root_object E (root_index v))"
    using assms(2) by (auto simp: float64_folded_def)
  then show ?thesis
    by cases
       (simp_all add: GetFloat64ForToNumber.simps[of E s v] assms(1) float64_folded_value_def)
qed

lemma GetFloat64_oddball:
  assumes "value_representation v \<noteq> kFloat64" and "oddball_constant E v"
  shows "GetFloat64ForToNumber E s v kDisallowToNumber = Inl DCHECK_failed"
  using assms by (simp add: GetFloat64ForToNumber.simps[of E s v] oddball_constant_def)

lemma GetFloat64_not_folded:
  assumes "value_representation v \<noteq> kFloat64" and "\<not> float64_folded E v"
    and "\<not> oddball_constant E v"
  shows "GetFloat64ForToNumber E s v kDisallowToNumber =
    (case alternative_float64 (fst (GetOrCreateInfoFor E s v)) of
       Some alt \<Rightarrow> Inr (alt, snd (GetOrCreateInfoFor E s v))
     | None \<Rightarrow>
        (case value_representation v of
           kTagged \<Rightarrow>
             bind_result
               (BuildNumberOrOddballToFloat64 E (snd (GetOrCreateInfoFor E s v)) v kOnlyNumber)
               (\<lambda>r. Inr (set_float64 v r))
         | kInt32 \<Rightarrow>
             Inr (set_float64 v
               (AddNewNode (snd (GetOrCreateInfoFor E s v))
                  (new_node 0 ''kChangeInt32ToFloat64'' kFloat64 [node_id v])))
         | kUint32 \<Rightarrow>
             Inr (set_float64 v
               (AddNewNode (snd (GetOrCreateInfoFor E s v))
                  (new_node 0 ''kChangeUint32ToFloat64'' kFloat64 [node_id v])))
         | kHoleyFloat64 \<Rightarrow>
             Inr (set_float64 v
               (AddNewNode (snd (GetOrCreateInfoFor E s v))
                  (new_node 0 ''kCheckedHoleyFloat64ToFloat64'' kFloat64 [node_id v])))
         | kFloat64 \<Rightarrow> Inl UNREACHABLE_hit
         | kWord64 \<Rightarrow> Inl UNREACHABLE_hit))"
proof -
  have a: "\<not> (opcode v = ''kConstant'' \<and> IsHeapNumber E (constant_object v))"
    "opcode v \<noteq> ''kSmiConstant''" "opcode v \<noteq> ''kInt32Constant''"
    "\<not> (opcode v = ''kRootConstant'' \<and> IsHeapNumber E (root_object E (root_index v)))"
    using assms(2) by (simp_all add: float64_folded_def)
  have b: "\<not> (opcode v = ''kConstant'' \<and> IsOddball E (constant_object v))"
    using assms(3) a(1) by (auto simp: oddball_constant_def)
  have c: "\<not> (opcode v = ''kRootConstant'' \<and> kDisallowToNumber \<noteq> kDisallowToNumber \<and>
              IsOddball E (root_object E (root_index v)))" by simp
  show ?thesis
    unfolding GetFloat64ForToNumber.simps[of E s v kDisallowToNumber] Let_def split_def
    by (simp only: assms(1) a b c if_False ToNumberHint.case)
qed

lemma GetFloat64_hit:
  assumes "value_representation v \<noteq> kFloat64" and "\<not> float64_folded E v"
    and "\<not> oddball_constant E v"
    and "known_node_aspects s (node_id v) = Some i" and "alternative_float64 i = Some a"
    and "hint_recorded s v kUseFloat64"
  shows "GetFloat64 E s v = Inr (a, s)"
  unfolding GetFloat64_def Record_noop[OF assms(6)] GetFloat64_not_folded[OF assms(1,2,3)]
  using assms(4,5) by (simp add: GetOrCreate_existing)

lemma GetFloat64_post:
  assumes "GetFloat64 E s v = Inr (n, s1)" and "value_representation v \<noteq> kFloat64"
    and "\<not> float64_folded E v" and "\<not> oddball_constant E v"
  shows "(\<exists>i. known_node_aspects s1 (node_id v) = Some i \<and> alternative_float64 i = Some n) \<and>
         hint_recorded s1 v kUseFloat64"
proof -
  define s0 where "s0 = RecordUseReprHintIfPhi s v kUseFloat64"
  define g where "g = GetOrCreateInfoFor E s0 v"
  have r1: "hint_recorded (snd g) v kUseFloat64"
    by (simp add: g_def s0_def Record_recorded)
  have e: "known_node_aspects (snd g) (node_id v) = Some (fst g)" by (simp add: g_def)
  have hg: "has_info (snd g) (node_id v)" by (simp add: g_def)
  note eq = GetFloat64_not_folded[OF assms(2,3,4), of s0, folded g_def]
  have a1: "GetFloat64ForToNumber E s0 v kDisallowToNumber = Inr (n, s1)"
    using assms(1) by (simp add: GetFloat64_def s0_def)
  show ?thesis
  proof (cases "alternative_float64 (fst g)")
    case (Some a)
    then have "n = a" "s1 = snd g" using a1 unfolding eq by simp_all
    then show ?thesis using e Some r1 by simp
  next
    case None
    have "\<exists>c s'. set_float64 v (c, s') = (n, s1) \<and> use_repr_hints s' = use_repr_hints (snd g) \<and>
            has_info s' (node_id v)"
    proof (cases "value_representation v = kTagged")
      case True
      then obtain c s' where b: "BuildNumberOrOddballToFloat64 E (snd g) v kOnlyNumber = Inr (c, s')"
        and r: "set_float64 v (c, s') = (n, s1)"
        using a1 None unfolding eq
        by (cases "BuildNumberOrOddballToFloat64 E (snd g) v kOnlyNumber")
           (auto simp: bind_result_def)
      show ?thesis
        using r BuildNumberOrOddballToFloat64_frame[OF b] hg by auto
    next
      case False
      have "\<exists>node. set_float64 v (AddNewNode (snd g) node) = (n, s1)"
        using a1 None False unfolding eq
        by (cases "value_representation v") (auto split: if_splits)
      then obtain node where r: "set_float64 v (AddNewNode (snd g) node) = (n, s1)" by blast
      show ?thesis
        by (rule exI[of _ "fst (AddNewNode (snd g) node)"],
            rule exI[of _ "snd (AddNewNode (snd g) node)"]) (use r hg in simp)
    qed
    then obtain c s' where r: "set_float64 v (c, s') = (n, s1)"
      "use_repr_hints s' = use_repr_hints (snd g)"
      "has_info s' (node_id v)" by blast
    from set_float64_cached[OF r(3), of c] r(1)
    have "\<exists>i. known_node_aspects s1 (node_id v) = Some i \<and> alternative_float64 i = Some n"
      by simp
    moreover have "use_repr_hints s1 = use_repr_hints (snd g)"
      using r(1,2) set_hints(2)[of v "(c, s')"] by simp
    ultimately show ?thesis using r1 hint_recorded_cong[of s1 "snd g" v kUseFloat64] by simp
  qed
qed

lemma GetFloat64_memo:
  assumes "GetFloat64 E s v = Inr (n, s1)"
  shows "GetFloat64 E s1 v = Inr (n, s1)"
proof -
  consider (same) "value_representation v = kFloat64"
    | (folded) "value_representation v \<noteq> kFloat64" "float64_folded E v"
    | (oddball) "value_representation v \<noteq> kFloat64" "oddball_constant E v"
    | (cached) "value_representation v \<noteq> kFloat64" "\<not> float64_folded E v"
        "\<not> oddball_constant E v" by blast
  then show ?thesis
  proof cases
    case same
    then have r: "n = v" "s1 = RecordUseReprHintIfPhi s v kUseFloat64"
      using assms by (auto simp: GetFloat64_def GetFloat64ForToNumber.simps[of E _ v])
    have "RecordUseReprHintIfPhi s1 v kUseFloat64 = s1"
      using r(2) by (simp add: Record_noop Record_recorded)
    then show ?thesis
      using same r(1) by (simp add: GetFloat64_def GetFloat64ForToNumber.simps[of E _ v])
  next
    case folded
    define c where "c = float64_folded_value E v"
    have eq: "\<And>t. GetFloat64 E t v =
        Inr (GetFloat64Constant (RecordUseReprHintIfPhi t v kUseFloat64) c)"
      unfolding c_def GetFloat64_def by (rule GetFloat64_folded[OF folded])
    from assms have g: "GetFloat64Constant (RecordUseReprHintIfPhi s v kUseFloat64) c = (n, s1)"
      unfolding eq by simp
    have "hint_recorded s1 v kUseFloat64"
      using hint_recorded_cong[OF GetFloat64Constant_hints[OF g], of v kUseFloat64]
      by (simp add: Record_recorded)
    then have "RecordUseReprHintIfPhi s1 v kUseFloat64 = s1" by (rule Record_noop)
    then show ?thesis unfolding eq using GetFloat64Constant_memo[OF g] by simp
  next
    case oddball
    then show ?thesis using assms by (simp add: GetFloat64_def GetFloat64_oddball)
  next
    case cached
    from GetFloat64_post[OF assms cached] obtain i where
      "known_node_aspects s1 (node_id v) = Some i" "alternative_float64 i = Some n"
      "hint_recorded s1 v kUseFloat64" by blast
    then show ?thesis using cached by (intro GetFloat64_hit)
  qed
qed

lemma BuildNumberOrOddballToFloat64_returns:
  "value_representation v \<noteq> kWord64 \<Longrightarrow>
   \<exists>c s'. BuildNumberOrOddballToFloat64 E s v conv = Inr (c, s')"
  using EnsureType_returns[of v E s "TaggedToFloat64ConversionTypeToNodeType E conv"]
  by (auto simp: BuildNumberOrOddballToFloat64_def bind_result_def Let_def split_def prod_eq_iff)

lemma GetFloat64_returns:
  assumes "value_representation v \<noteq> kWord64" and "\<not> oddball_constant E v"
  shows "\<exists>n s1. GetFloat64 E s v = Inr (n, s1)"
proof -
  consider (same) "value_representation v = kFloat64"
    | (folded) "value_representation v \<noteq> kFloat64" "float64_folded E v"
    | (cached) "value_representation v \<noteq> kFloat64" "\<not> float64_folded E v" by blast
  then show ?thesis
  proof cases
    case same
    then show ?thesis by (simp add: GetFloat64_def GetFloat64ForToNumber.simps[of E _ v])
  next
    case folded
    show ?thesis unfolding GetFloat64_def GetFloat64_folded[OF folded] by (simp add: prod_eq_iff)
  next
    case cached
    define g where "g = GetOrCreateInfoFor E (RecordUseReprHintIfPhi s v kUseFloat64) v"
    note eq = GetFloat64_not_folded[OF cached assms(2),
        of "RecordUseReprHintIfPhi s v kUseFloat64", folded g_def]
    show ?thesis
    proof (cases "alternative_float64 (fst g)")
      case (Some a)
      then show ?thesis unfolding GetFloat64_def eq by simp
    next
      case None
      show ?thesis
      proof (cases "value_representation v = kTagged")
        case True
        from BuildNumberOrOddballToFloat64_returns[OF assms(1), of E "snd g" kOnlyNumber]
        obtain c s' where "BuildNumberOrOddballToFloat64 E (snd g) v kOnlyNumber = Inr (c, s')"
          by blast
        then show ?thesis
          unfolding GetFloat64_def eq using None True by (simp add: bind_result_def prod_eq_iff)
      next
        case False
        then show ?thesis
          unfolding GetFloat64_def eq using None assms(1) cached(1)
          by (cases "value_representation v") (simp_all add: prod_eq_iff)
      qed
    qed
  qed
qed

text \<open>The first requests on the instance, evaluated.\<close>

lemmas instance_defs =
  broker0_def graph0_def uint32_node_def smi_constant_def graph_with_def tagged_of_uint32_def
  int32_of_uint32_def float64_of_uint32_def int32_constant_3_def graph_with_constant_def
  new_node_def new_NodeInfo_def

lemma first_tagged:
  "GetTaggedValue broker0 graph0 uint32_node kRecord =
     Inr (tagged_of_uint32,
          graph_with tagged_of_uint32 (\<lambda>i. i\<lparr>alternative_tagged := Some tagged_of_uint32\<rparr>))"
  by (simp add: instance_defs GetTaggedValue_def RecordUseReprHintIfPhi_def
      GetOrCreateInfoFor_def NodeTypeIsSmi_def AddNewNode_def set_tagged_def update_info_def Let_def)

lemma first_int32:
  "GetInt32 broker0 graph0 uint32_node =
     Inr (int32_of_uint32,
          graph_with int32_of_uint32 (\<lambda>i. i\<lparr>alternative_int32 := Some int32_of_uint32\<rparr>))"
  by (simp add: instance_defs GetInt32_def RecordUseReprHintIfPhi_def
      GetOrCreateInfoFor_def NodeTypeIsSmi_def AddNewNode_def set_int32_def update_info_def Let_def)

lemma first_float64:
  "GetFloat64 broker0 graph0 uint32_node =
     Inr (float64_of_uint32,
          graph_with float64_of_uint32 (\<lambda>i. i\<lparr>alternative_float64 := Some float64_of_uint32\<rparr>))"
  by (simp add: instance_defs GetFloat64_def GetFloat64ForToNumber.simps RecordUseReprHintIfPhi_def
      GetOrCreateInfoFor_def NodeTypeIsSmi_def AddNewNode_def set_float64_def update_info_def Let_def)

lemma first_smi_constant:
  "GetInt32 broker0 graph0 smi_constant = Inr (int32_constant_3, graph_with_constant)"
  by (simp add: instance_defs GetInt32_def RecordUseReprHintIfPhi_def GetInt32Constant_def Let_def)

text \<open>
  Claim C3. For every value node and each of \<open>GetTaggedValue\<close>, \<open>GetInt32\<close> and
  \<open>GetFloat64\<close>: when a request returns a node, the same request in the state it leaves
  returns the identical node and leaves that state as it is, so the second request adds
  no node to the graph. A request returns for every node that is not in the word64
  representation (for \<open>GetFloat64\<close>, and is not a \<^verbatim>\<open>Constant\<close> holding an oddball). The node
  returned is stored in the alternative slot of the value's entry when the value is not
  already in the requested representation and is not one of the constants that the
  request folds before any entry is looked at.
\<close>

theorem conversions_memoized:
  "(GetTaggedValue E s v h = Inr (n1, s1) \<longrightarrow> GetTaggedValue E s1 v h = Inr (n1, s1)) \<and>
   (GetInt32 E s v = Inr (n2, s2) \<longrightarrow> GetInt32 E s2 v = Inr (n2, s2)) \<and>
   (GetFloat64 E s v = Inr (n3, s3) \<longrightarrow> GetFloat64 E s3 v = Inr (n3, s3)) \<and>
   (value_representation v \<noteq> kWord64 \<longrightarrow>
      (\<exists>n s'. GetTaggedValue E s v h = Inr (n, s')) \<and>
      (\<exists>n s'. GetInt32 E s v = Inr (n, s')) \<and>
      (\<not> oddball_constant E v \<longrightarrow> (\<exists>n s'. GetFloat64 E s v = Inr (n, s')))) \<and>
   (GetTaggedValue E s v h = Inr (n1, s1) \<and> value_representation v \<noteq> kTagged \<longrightarrow>
      (\<exists>i. TryGetInfoFor s1 v = Some i \<and> alternative_tagged i = Some n1)) \<and>
   (GetInt32 E s v = Inr (n2, s2) \<and> value_representation v \<noteq> kInt32 \<and> \<not> int32_folded E v \<longrightarrow>
      (\<exists>i. TryGetInfoFor s2 v = Some i \<and> alternative_int32 i = Some n2)) \<and>
   (GetFloat64 E s v = Inr (n3, s3) \<and> value_representation v \<noteq> kFloat64 \<and>
      \<not> float64_folded E v \<longrightarrow>
      (\<exists>i. TryGetInfoFor s3 v = Some i \<and> alternative_float64 i = Some n3))"
proof -
  have a: "GetTaggedValue E s v h = Inr (n1, s1) \<longrightarrow> GetTaggedValue E s1 v h = Inr (n1, s1)"
    using GetTaggedValue_memo by blast
  have b: "GetInt32 E s v = Inr (n2, s2) \<longrightarrow> GetInt32 E s2 v = Inr (n2, s2)"
    using GetInt32_memo by blast
  have c: "GetFloat64 E s v = Inr (n3, s3) \<longrightarrow> GetFloat64 E s3 v = Inr (n3, s3)"
    using GetFloat64_memo by blast
  have d: "value_representation v \<noteq> kWord64 \<longrightarrow>
      (\<exists>n s'. GetTaggedValue E s v h = Inr (n, s')) \<and>
      (\<exists>n s'. GetInt32 E s v = Inr (n, s')) \<and>
      (\<not> oddball_constant E v \<longrightarrow> (\<exists>n s'. GetFloat64 E s v = Inr (n, s')))"
    using GetTaggedValue_returns[of v E s h] GetInt32_returns[of v E s]
      GetFloat64_returns[of v E s] by blast
  have e: "GetTaggedValue E s v h = Inr (n1, s1) \<and> value_representation v \<noteq> kTagged \<longrightarrow>
      (\<exists>i. TryGetInfoFor s1 v = Some i \<and> alternative_tagged i = Some n1)"
    using GetTaggedValue_post[of E s v h n1 s1] unfolding TryGetInfoFor_def by blast
  have f: "GetInt32 E s v = Inr (n2, s2) \<and> value_representation v \<noteq> kInt32 \<and>
      \<not> int32_folded E v \<longrightarrow>
      (\<exists>i. TryGetInfoFor s2 v = Some i \<and> alternative_int32 i = Some n2)"
    using GetInt32_post[of E s v n2 s2] unfolding TryGetInfoFor_def by blast
  have g: "GetFloat64 E s v = Inr (n3, s3) \<and> value_representation v \<noteq> kFloat64 \<and>
      \<not> float64_folded E v \<longrightarrow>
      (\<exists>i. TryGetInfoFor s3 v = Some i \<and> alternative_float64 i = Some n3)"
  proof (cases "oddball_constant E v \<and> value_representation v \<noteq> kFloat64")
    case True
    then show ?thesis by (simp add: GetFloat64_def GetFloat64_oddball)
  next
    case False
    then show ?thesis using GetFloat64_post[of E s v n3 s3] unfolding TryGetInfoFor_def by blast
  qed
  from a b c d e f g show ?thesis by blast
qed

theorem conversions_memoized_witness:
  "value_representation uint32_node \<noteq> kWord64 \<and>
   GetTaggedValue broker0
     (graph_with tagged_of_uint32 (\<lambda>i. i\<lparr>alternative_tagged := Some tagged_of_uint32\<rparr>))
     uint32_node kRecord =
     Inr (tagged_of_uint32,
          graph_with tagged_of_uint32 (\<lambda>i. i\<lparr>alternative_tagged := Some tagged_of_uint32\<rparr>)) \<and>
   GetInt32 broker0
     (graph_with int32_of_uint32 (\<lambda>i. i\<lparr>alternative_int32 := Some int32_of_uint32\<rparr>))
     uint32_node =
     Inr (int32_of_uint32,
          graph_with int32_of_uint32 (\<lambda>i. i\<lparr>alternative_int32 := Some int32_of_uint32\<rparr>)) \<and>
   GetFloat64 broker0
     (graph_with float64_of_uint32 (\<lambda>i. i\<lparr>alternative_float64 := Some float64_of_uint32\<rparr>))
     uint32_node =
     Inr (float64_of_uint32,
          graph_with float64_of_uint32
            (\<lambda>i. i\<lparr>alternative_float64 := Some float64_of_uint32\<rparr>))"
  using conversions_memoized [of broker0 graph0 uint32_node kRecord
      tagged_of_uint32
      "graph_with tagged_of_uint32 (\<lambda>i. i\<lparr>alternative_tagged := Some tagged_of_uint32\<rparr>)"
      int32_of_uint32
      "graph_with int32_of_uint32 (\<lambda>i. i\<lparr>alternative_int32 := Some int32_of_uint32\<rparr>)"
      float64_of_uint32
      "graph_with float64_of_uint32 (\<lambda>i. i\<lparr>alternative_float64 := Some float64_of_uint32\<rparr>)"]
  by (simp add: first_tagged first_int32 first_float64)
     (simp add: uint32_node_def new_node_def)

text \<open>
  Constants are folded before the entry of the value is looked at. A request for the
  int32 value of the Smi constant 3 is answered with the graph's \<^verbatim>\<open>Int32Constant\<close> for
  3: the value gets no entry, and the second request is answered from the graph's
  constants with the identical node.
\<close>

lemma folded_constant_memoized:
  "GetInt32 broker0 graph0 smi_constant = Inr (int32_constant_3, graph_with_constant) \<and>
   TryGetInfoFor graph_with_constant smi_constant = None \<and>
   GetInt32 broker0 graph_with_constant smi_constant = Inr (int32_constant_3, graph_with_constant)"
  by (simp add: instance_defs GetInt32_def RecordUseReprHintIfPhi_def GetInt32Constant_def
      Let_def TryGetInfoFor_def)

section \<open>The map check elides the check or deoptimizes\<close>


lemma new_KnownMapsMerger_fields [simp]:
  "requested_maps (new_KnownMapsMerger E maps) = maps"
  "intersect_set (new_KnownMapsMerger E maps) = []"
  "known_maps_are_subset_of_requested_maps (new_KnownMapsMerger E maps)"
  by (simp_all add: new_KnownMapsMerger_def)

lemma InsertMap_keeps [simp]:
  "requested_maps (InsertMap E m mp) = requested_maps m"
  "known_maps_are_subset_of_requested_maps (InsertMap E m mp)
     = known_maps_are_subset_of_requested_maps m"
  by (simp_all add: InsertMap_def Let_def)

lemma intersect_step_requested [simp]:
  "requested_maps (intersect_step E t mp m) = requested_maps m"
  by (simp add: intersect_step_def)

lemma fold_intersect_requested [simp]:
  "requested_maps (fold (intersect_step E t) xs m) = requested_maps m"
  by (induction xs arbitrary: m) simp_all





lemma update_info_next [simp]:
  "next_node_id (update_info s v f) = next_node_id s"
  by (simp add: update_info_def split: option.splits)













end
